theory Spec2Isabelle
  imports Main
begin

section \<open>The dialog controller of app-tools (class \<open>Dialog\<close>)\<close>

text \<open>
  The class \<open>Dialog\<close> drives one native \<open>dialog\<close> element through the phases
  opening, opened, closing and closed.  Its two asynchronous methods, \<open>open\<close> and
  \<open>__onDialogClose\<close>, are sequences of synchronous segments separated by \<open>await\<close>.
  JavaScript runs each segment to completion, so a segment is a function on the state; what
  a method leaves behind at an \<open>await\<close> is a \<open>task\<close> (the continuation with its local
  variables), and other calls may run before the task is resumed.

  The calls to the logger only read the state and are left out.  The hooks, the
  listeners of the four events and the callback of \<open>modify\<close> are code of the caller: the
  model records that a hook is called and how it ends, and that an event is dispatched,
  and takes it that this code leaves the attributes and the attachment of the surface to
  the controller.  A call that such code makes on the controller is a call like any other
  (an action of the interleaving below).  The style element that the module adds to the
  document head plays no part.
\<close>

subsection \<open>Data\<close>

datatype error = Error string | TypeError string | InvalidStateError string

text \<open>\<open>parameters?: object\<close>: an optional object, kept as its list of properties.\<close>

type_synonym parameters = "(string \<times> string) list option"

text \<open>
  A \<open>DialogNode\<close>: the attributes of the \<open>dialog\<close> element, the attributes of the
  \<open>form\<close> appended to it, its \<open>returnValue\<close>, and whether it is a child of
  \<open>document.body\<close>.
\<close>

record dialog_node =
  attrs :: "string \<rightharpoonup> string"
  form :: "string \<rightharpoonup> string"
  returnValue :: string
  attached :: bool

text \<open>
  What a hook does when it is called: it throws, or it returns a value; awaiting the
  returned value either continues (\<open>Fulfils\<close>: a plain value or a promise that fulfils)
  or raises (\<open>Rejects\<close>: a promise that rejects).  The hooks receive the dialog node (and
  the parameters); their own changes to the content of the node are not part of the model.
\<close>

datatype settle = Fulfils | Rejects error

datatype hook_beh = Throws error | Returns settle

record hooks =
  hook_opening :: "(dialog_node \<Rightarrow> parameters \<Rightarrow> hook_beh) option"
  hook_opened :: "(dialog_node \<Rightarrow> parameters \<Rightarrow> hook_beh) option"
  hook_closing :: "(dialog_node \<Rightarrow> hook_beh) option"
  hook_closed :: "(dialog_node \<Rightarrow> hook_beh) option"

datatype kind = Opening | Opened | Closing | Closed

text \<open>\<open>new DialogStateEvent(kind, {id, dialog})\<close>; the dialog is a reference to a node.\<close>

datatype event = DialogStateEvent kind string nat

text \<open>A promise made by \<open>new Promise\<close> is pending or resolved with a dialog node.\<close>

datatype promise = Pending | Resolved nat

text \<open>
  The fields of a \<open>Dialog\<close> instance (\<open>priv_id\<close> is \<open>#id\<close>; \<open>#config\<close> is an
  object, given by its own properties \<open>config\<close> and by the names \<open>config_proto\<close> that
  are found along its prototype chain; \<open>dialog\<close> is \<open>__dialog\<close>, \<open>opened\<close> and \<open>closed\<close> refer to promises and
  \<open>resolveOpened\<close>, \<open>resolveClosed\<close> to the promises their resolvers belong to),
  together with the objects it works on: the store of dialog nodes ever created (a
  reference is an index), the store of promises, the events dispatched so far, and the
  \<open>close\<close> events the platform has queued but not yet delivered.
\<close>

record state =
  priv_id :: string
  config :: "string \<rightharpoonup> hooks"
  config_proto :: "string set"
  isOpen :: bool
  opened :: nat
  closed :: nat
  resolveOpened :: nat
  resolveClosed :: nat
  dialog :: "nat option"
  nodes :: "dialog_node list"
  promises :: "promise list"
  events :: "event list"
  close_queue :: "nat list"

text \<open>The suspended continuations of \<open>open\<close> and \<open>__onDialogClose\<close>, one per \<open>await\<close>.\<close>

datatype task =
    Open_opening_hook string parameters settle
  | Open_paint string parameters
  | Open_animations string parameters
  | Open_opened_hook string parameters settle
  | Close_closing_hook string nat settle
  | Close_animations string nat
  | Close_closed_hook string nat settle

text \<open>How a segment ends: at an \<open>await\<close>, by returning, or by throwing.\<close>

datatype status = Await task | Return | Throw error

subsection \<open>Elements, promises, events\<close>

definition setAttribute :: "string \<Rightarrow> string \<Rightarrow> dialog_node \<Rightarrow> dialog_node" where
  "setAttribute a v d = d\<lparr>attrs := (attrs d)(a \<mapsto> v)\<rparr>"

definition removeAttribute :: "string \<Rightarrow> dialog_node \<Rightarrow> dialog_node" where
  "removeAttribute a d = d\<lparr>attrs := (attrs d)(a := None)\<rparr>"

definition hasAttribute :: "string \<Rightarrow> dialog_node \<Rightarrow> bool" where
  "hasAttribute a d = (attrs d a \<noteq> None)"

text \<open>A method call on the node a reference points to.\<close>

definition update_node :: "nat \<Rightarrow> (dialog_node \<Rightarrow> dialog_node) \<Rightarrow> state \<Rightarrow> state" where
  "update_node n f s = s\<lparr>nodes := (nodes s)[n := f (nodes s ! n)]\<rparr>"

definition dispatchEvent :: "event \<Rightarrow> state \<Rightarrow> state" where
  "dispatchEvent e s = s\<lparr>events := events s @ [e]\<rparr>"

text \<open>Calling the resolver of an already resolved promise does nothing.\<close>

definition resolve :: "nat \<Rightarrow> nat \<Rightarrow> state \<Rightarrow> state" where
  "resolve p d s =
     (if promises s ! p = Pending then s\<lparr>promises := (promises s)[p := Resolved d]\<rparr> else s)"

text \<open>
  \<open>id in this.#config\<close>: the operator \<open>in\<close> finds the own properties of the object and
  the properties it inherits.  An object literal inherits the properties of
  \<open>Object.prototype\<close>.
\<close>

definition object_prototype :: "string set" where
  "object_prototype =
     {''constructor'', ''hasOwnProperty'', ''isPrototypeOf'', ''propertyIsEnumerable'',
      ''toLocaleString'', ''toString'', ''valueOf'', ''__proto__'', ''__defineGetter__'',
      ''__defineSetter__'', ''__lookupGetter__'', ''__lookupSetter__''}"

definition in_config :: "state \<Rightarrow> string \<Rightarrow> bool" where
  "in_config s i = (i \<in> dom (config s) \<or> i \<in> config_proto s)"

text \<open>
  \<open>this.#config[id]?.hook?.(...)\<close>: an absent kind or an absent hook gives \<open>undefined\<close>,
  and \<open>await undefined\<close> continues.  For a name that is only inherited,
  \<open>this.#config[id]\<close> is a function or object of the platform, which has no property
  named like a hook: the result is \<open>undefined\<close> as well.
\<close>

definition invoke :: "(string \<rightharpoonup> hooks) \<Rightarrow> string \<Rightarrow> (hooks \<Rightarrow> 'h option) \<Rightarrow> ('h \<Rightarrow> hook_beh) \<Rightarrow> hook_beh" where
  "invoke cfg i sel app =
     (case cfg i of
        None \<Rightarrow> Returns Fulfils
      | Some h \<Rightarrow> (case sel h of None \<Rightarrow> Returns Fulfils | Some f \<Rightarrow> app f))"

subsection \<open>The platform's dialog element\<close>

text \<open>
  The native methods of \<open>HTMLDialogElement\<close>, as the HTML standard gives them.
  \<open>showModal()\<close> returns at once on a dialog that is already shown, throws on a dialog
  that is not connected, and otherwise sets the \<open>open\<close> attribute.  \<open>close(result)\<close> does
  nothing on a dialog without the \<open>open\<close> attribute; otherwise it removes the attribute,
  records the result and queues the \<open>close\<close> event.  Dismissal by the platform (the escape
  key, the submission of a form with method \<open>dialog\<close>) takes the same path.
\<close>

definition showModal :: "nat \<Rightarrow> state \<Rightarrow> error + state" where
  "showModal n s =
     (if hasAttribute ''open'' (nodes s ! n) then Inr s
      else if \<not> attached (nodes s ! n) then Inl (InvalidStateError ''not connected'')
      else Inr (update_node n (setAttribute ''open'' '''') s))"

definition native_close :: "nat \<Rightarrow> string option \<Rightarrow> state \<Rightarrow> state" where
  "native_close n rv s =
     (if \<not> hasAttribute ''open'' (nodes s ! n) then s
      else (update_node n
              (\<lambda>d. (removeAttribute ''open'' d)
                      \<lparr>returnValue := (case rv of None \<Rightarrow> returnValue d | Some r \<Rightarrow> r)\<rparr>) s)
           \<lparr>close_queue := close_queue s @ [n]\<rparr>)"

subsection \<open>The class\<close>

text \<open>The field initialisers and the constructor, for a configuration written as an
  object literal, \<open>new Dialog({...})\<close>.\<close>

definition init :: "(string \<rightharpoonup> hooks) \<Rightarrow> state" where
  "init cfg =
     \<lparr>priv_id = '''', config = cfg, config_proto = object_prototype, isOpen = False,
      opened = 0, closed = 1,
      resolveOpened = 0, resolveClosed = 1, dialog = None, nodes = [],
      promises = [Pending, Pending], events = [], close_queue = []\<rparr>"

text \<open>
  \<open>__initDialogNode\<close>: a detached \<open>dialog\<close> with the attribute \<open>app-tools\<close> and a form
  child.  Every node made here listens for \<open>close\<close> with \<open>__onDialogClose\<close> and for
  \<open>mousedown\<close> with \<open>__onLightDismiss\<close>.
\<close>

definition initDialogNode :: dialog_node where
  "initDialogNode =
     \<lparr>attrs = [''app-tools'' \<mapsto> ''''],
      form = [''app-tools'' \<mapsto> '''', ''method'' \<mapsto> ''dialog''],
      returnValue = '''', attached = False\<rparr>"

text \<open>\<open>close = (kind = 'programmatic') => { this.__dialog?.close(kind); }\<close>\<close>

definition close :: "string option \<Rightarrow> state \<Rightarrow> state" where
  "close k s =
     (let kind = (case k of None \<Rightarrow> ''programmatic'' | Some r \<Rightarrow> r)
      in case dialog s of None \<Rightarrow> s | Some d \<Rightarrow> native_close d (Some kind) s)"

text \<open>
  The target of a \<open>mousedown\<close> that reaches the listener of a dialog node is that node
  itself or an element below it; the listener reads the target's \<open>nodeName\<close>.
\<close>

datatype element = Surface nat | Content string

fun nodeName :: "element \<Rightarrow> string" where
  "nodeName (Surface n) = ''DIALOG''"
| "nodeName (Content nm) = nm"

definition onLightDismiss :: "element \<Rightarrow> state \<Rightarrow> state" where
  "onLightDismiss target s =
     (if nodeName target = ''DIALOG'' then close (Some ''dismiss'') s else s)"

text \<open>\<open>this.x = new Promise((resolve) => {this.__resolveX = resolve;})\<close>\<close>

definition new_opened :: "state \<Rightarrow> state" where
  "new_opened s =
     s\<lparr>promises := promises s @ [Pending],
       resolveOpened := length (promises s), opened := length (promises s)\<rparr>"

definition new_closed :: "state \<Rightarrow> state" where
  "new_closed s =
     s\<lparr>promises := promises s @ [Pending],
       resolveClosed := length (promises s), closed := length (promises s)\<rparr>"

text \<open>\<open>open\<close>, up to the \<open>await\<close> of the opening hook (lines 177 to 196).\<close>

definition open_dialog :: "string \<Rightarrow> parameters \<Rightarrow> state \<Rightarrow> state \<times> status" where
  "open_dialog i p s =
     (if \<not> in_config s i
      then (s, Throw (Error (''No dialog configured for id: '' @ i)))
      else
        let s1 = s\<lparr>priv_id := i\<rparr> in
        if isOpen s1 then (s1, Return)
        else
          let n = length (nodes s1);
              s2 = s1\<lparr>nodes := nodes s1 @ [initDialogNode], dialog := Some n\<rparr>;
              s3 = update_node n (\<lambda>d. d\<lparr>attached := True\<rparr>) s2;
              s4 = update_node n (setAttribute ''opening'' '''') s3;
              s5 = dispatchEvent (DialogStateEvent Opening i n) s4
          in case invoke (config s5) i hook_opening (\<lambda>f. f (nodes s5 ! n) p) of
               Throws e \<Rightarrow> (s5, Throw e)
             | Returns r \<Rightarrow> (s5, Await (Open_opening_hook i p r)))"

text \<open>\<open>open\<close> after animations (lines 207 to 214): the opened phase.\<close>

definition open_opened_phase :: "string \<Rightarrow> parameters \<Rightarrow> state \<Rightarrow> state \<times> status" where
  "open_opened_phase i p s =
     (let s1 = s\<lparr>isOpen := True\<rparr> in
      case dialog s1 of
        None \<Rightarrow> (s1, Throw (TypeError ''this.__dialog is undefined''))
      | Some n \<Rightarrow>
          let s2 = update_node n (removeAttribute ''opening'') s1;
              s3 = update_node n (setAttribute ''opened'' '''') s2;
              s4 = resolve (resolveOpened s3) n s3;
              s5 = dispatchEvent (DialogStateEvent Opened i n) s4
          in (case invoke (config s5) i hook_opened (\<lambda>f. f (nodes s5 ! n) p) of
                Throws e \<Rightarrow> (s5, Throw e)
              | Returns r \<Rightarrow> (s5, Await (Open_opened_hook i p r))))"

text \<open>\<open>__onDialogClose\<close>, up to the \<open>await\<close> of the closing hook (lines 115 to 132).\<close>

definition onDialogClose :: "state \<Rightarrow> state \<times> status" where
  "onDialogClose s =
     (let i = priv_id s in
      case dialog s of
        None \<Rightarrow> (s, Throw (TypeError ''d is undefined''))
      | Some d \<Rightarrow>
          let s1 = update_node d (removeAttribute ''opened'') s;
              s2 = update_node d (setAttribute ''closing'' '''') s1;
              s3 = dispatchEvent (DialogStateEvent Closing i d) s2
          in (case invoke (config s3) i hook_closing (\<lambda>f. f (nodes s3 ! d)) of
                Throws e \<Rightarrow> (s3, Throw e)
              | Returns r \<Rightarrow> (s3, Await (Close_closing_hook i d r))))"

text \<open>\<open>__onDialogClose\<close> after animations (lines 139 to 151): the closed phase.\<close>

definition close_closed_phase :: "string \<Rightarrow> nat \<Rightarrow> state \<Rightarrow> state \<times> status" where
  "close_closed_phase i d s =
     (let s1 = s\<lparr>isOpen := False\<rparr>;
          s2 = update_node d (removeAttribute ''closing'') s1;
          s3 = update_node d (setAttribute ''closed'' '''') s2;
          s4 = resolve (resolveClosed s3) d s3;
          s5 = dispatchEvent (DialogStateEvent Closed i d) s4
      in case invoke (config s5) i hook_closed (\<lambda>f. f (nodes s5 ! d)) of
           Throws e \<Rightarrow> (s5, Throw e)
         | Returns r \<Rightarrow> (s5, Await (Close_closed_hook i d r)))"

text \<open>\<open>__onDialogClose\<close>, its last segment (lines 162 to 166).\<close>

definition close_teardown :: "nat \<Rightarrow> state \<Rightarrow> state" where
  "close_teardown d s =
     (let s1 = update_node d (\<lambda>x. x\<lparr>attached := False\<rparr>) s;
          s2 = s1\<lparr>dialog := None\<rparr>;
          s3 = new_opened s2
      in s3\<lparr>priv_id := ''''\<rparr>)"

text \<open>
  Resuming a task runs the segment after its \<open>await\<close>.  An awaited hook result that
  rejects is caught, logged and thrown again; the waits for a frame and for the
  animations (\<open>Promise.allSettled\<close>) never reject.
\<close>

fun resume :: "task \<Rightarrow> state \<Rightarrow> state \<times> status" where
  "resume (Open_opening_hook i p (Rejects e)) s = (s, Throw e)"
| "resume (Open_opening_hook i p Fulfils) s = (s, Await (Open_paint i p))"
| "resume (Open_paint i p) s =
     (case dialog s of
        None \<Rightarrow> (s, Throw (TypeError ''this.__dialog is undefined''))
      | Some n \<Rightarrow>
          (case showModal n s of
             Inl e \<Rightarrow> (s, Throw e)
           | Inr s1 \<Rightarrow> (s1, Await (Open_animations i p))))"
| "resume (Open_animations i p) s = open_opened_phase i p s"
| "resume (Open_opened_hook i p (Rejects e)) s = (s, Throw e)"
| "resume (Open_opened_hook i p Fulfils) s = (new_closed s, Return)"
| "resume (Close_closing_hook i d (Rejects e)) s = (s, Throw e)"
| "resume (Close_closing_hook i d Fulfils) s = (s, Await (Close_animations i d))"
| "resume (Close_animations i d) s = close_closed_phase i d s"
| "resume (Close_closed_hook i d (Rejects e)) s = (s, Throw e)"
| "resume (Close_closed_hook i d Fulfils) s = (close_teardown d s, Return)"

subsection \<open>A pass that nothing interrupts\<close>

text \<open>
  \<open>continue\<close> resumes a suspended method at once.  Both methods have at most four
  \<open>await\<close>s, so four rounds bring any call to its end.
\<close>

fun continue :: "state \<times> status \<Rightarrow> state \<times> status" where
  "continue (s, Await t) = resume t s"
| "continue (s, Return) = (s, Return)"
| "continue (s, Throw e) = (s, Throw e)"

definition complete :: "state \<times> status \<Rightarrow> state \<times> status" where
  "complete x = continue (continue (continue (continue x)))"

definition run_open :: "string \<Rightarrow> parameters \<Rightarrow> state \<Rightarrow> state \<times> status" where
  "run_open i p s = complete (open_dialog i p s)"

definition run_onDialogClose :: "state \<Rightarrow> state \<times> status" where
  "run_onDialogClose s = complete (onDialogClose s)"

subsection \<open>Interleaved calls\<close>

text \<open>
  What can happen between two segments: a caller invokes \<open>open\<close> or \<open>close\<close>, a
  \<open>mousedown\<close> reaches the listener, the platform closes a shown dialog, a queued
  \<open>close\<close> event is delivered (which starts \<open>__onDialogClose\<close>), or a suspended task is
  resumed.  The controller state is paired with the pool of suspended tasks.
\<close>

datatype action =
    Call_open string parameters
  | Call_close "string option"
  | Mousedown element
  | Native_close nat "string option"
  | Fire_close
  | Resume nat

type_synonym sys = "state \<times> task list"

fun spawn :: "state \<times> status \<Rightarrow> task list \<Rightarrow> sys" where
  "spawn (s, Await t) ts = (s, ts @ [t])"
| "spawn (s, Return) ts = (s, ts)"
| "spawn (s, Throw e) ts = (s, ts)"

fun step :: "action \<Rightarrow> sys \<Rightarrow> sys" where
  "step (Call_open i p) (s, ts) = spawn (open_dialog i p s) ts"
| "step (Call_close k) (s, ts) = (close k s, ts)"
| "step (Mousedown t) (s, ts) = (onLightDismiss t s, ts)"
| "step (Native_close n rv) (s, ts) =
     (if n < length (nodes s) then native_close n rv s else s, ts)"
| "step Fire_close (s, ts) =
     (case close_queue s of
        [] \<Rightarrow> (s, ts)
      | n # q \<Rightarrow> spawn (onDialogClose (s\<lparr>close_queue := q\<rparr>)) ts)"
| "step (Resume k) (s, ts) =
     (if k < length ts then spawn (resume (ts ! k) s) (take k ts @ drop (Suc k) ts)
      else (s, ts))"

fun exec :: "action list \<Rightarrow> sys \<Rightarrow> sys" where
  "exec [] x = x"
| "exec (a # as) x = exec as (step a x)"

subsection \<open>Reading the markers of a surface\<close>

text \<open>The lifecycle markers a node carries, of the four the controller sets.\<close>

definition lifecycle_markers :: "dialog_node \<Rightarrow> string list" where
  "lifecycle_markers d =
     filter (\<lambda>a. hasAttribute a d) [''opening'', ''opened'', ''closing'', ''closed'']"

text \<open>
  The states an uninterrupted call passes through: after its first segment and after
  each of the four resumptions (a call that has ended stays where it is).
\<close>

definition open_pass :: "string \<Rightarrow> parameters \<Rightarrow> state \<Rightarrow> (state \<times> status) list" where
  "open_pass i p s =
     (let x1 = open_dialog i p s; x2 = continue x1; x3 = continue x2;
          x4 = continue x3; x5 = continue x4
      in [x1, x2, x3, x4, x5])"

definition close_pass :: "state \<Rightarrow> (state \<times> status) list" where
  "close_pass s =
     (let y1 = onDialogClose s; y2 = continue y1; y3 = continue y2; y4 = continue y3
      in [y1, y2, y3, y4])"

text \<open>
  The node as a hook receives it in an uninterrupted pass: a fresh node at the opening
  hook, the same node shown and marked at the opened hook, and the node \<open>d\<close> of the close
  notification at the closing hook.
\<close>

definition opening_node :: dialog_node where
  "opening_node = setAttribute ''opening'' '''' (initDialogNode\<lparr>attached := True\<rparr>)"


definition closing_node :: "dialog_node \<Rightarrow> dialog_node" where
  "closing_node d = setAttribute ''closing'' '''' (removeAttribute ''opened'' d)"

subsection \<open>Example configurations\<close>

definition no_hooks :: hooks where
  "no_hooks = \<lparr>hook_opening = None, hook_opened = None, hook_closing = None, hook_closed = None\<rparr>"

definition example_config :: "string \<rightharpoonup> hooks" where
  "example_config = [''foo'' \<mapsto> no_hooks, ''bar'' \<mapsto> no_hooks]"

text \<open>Kinds with a hook that fails.\<close>

definition rejecting_opening :: "string \<rightharpoonup> hooks" where
  "rejecting_opening =
     [''bar'' \<mapsto> no_hooks\<lparr>hook_opening := Some (\<lambda>d p. Returns (Rejects (Error ''boom'')))\<rparr>]"


definition throwing_closing :: "string \<rightharpoonup> hooks" where
  "throwing_closing =
     [''foo'' \<mapsto> no_hooks\<lparr>hook_closing := Some (\<lambda>d. Throws (Error ''boom''))\<rparr>]"

text \<open>The controller after \<open>open({id: 'foo'})\<close> has run to its end.\<close>

definition opened_state :: state where
  "opened_state = fst (run_open ''foo'' None (init example_config))"

text \<open>
  Two moments of the pass for \<open>foo\<close>: the surface has just been shown (the call of
  \<open>open\<close> waits for the animations), and the closed signal has just been resolved (the
  handler of the close notification waits for the closed hook).
\<close>

definition shown_state :: state where
  "shown_state = fst (open_pass ''foo'' None (init example_config) ! 2)"

definition closed_signalled_state :: state where
  "closed_signalled_state = fst (close_pass (close None opened_state) ! 2)"

subsection \<open>Surfaces in the document\<close>

text \<open>The nodes that are children of \<open>document.body\<close>.\<close>

definition attached_surfaces :: "state \<Rightarrow> nat list" where
  "attached_surfaces s = filter (\<lambda>n. attached (nodes s ! n)) [0..<length (nodes s)]"

text \<open>The node a task of \<open>__onDialogClose\<close> works on.\<close>

fun handler_nodes :: "task \<Rightarrow> nat list" where
  "handler_nodes (Open_opening_hook i p r) = []"
| "handler_nodes (Open_paint i p) = []"
| "handler_nodes (Open_animations i p) = []"
| "handler_nodes (Open_opened_hook i p r) = []"
| "handler_nodes (Close_closing_hook i d r) = [d]"
| "handler_nodes (Close_animations i d) = [d]"
| "handler_nodes (Close_closed_hook i d r) = [d]"

text \<open>Two calls of \<open>open\<close> in a row.\<close>

definition double_open :: sys where
  "double_open = exec [Call_open ''foo'' None, Call_open ''foo'' None] (init example_config, [])"




text \<open>A pass for \<open>foo\<close> up to the point where the handler of the close notification
  waits for the exit animations.\<close>

definition closing_schedule :: "action list" where
  "closing_schedule =
     [Call_open ''foo'' None, Resume 0, Resume 0, Resume 0, Resume 0,
      Call_close None, Fire_close, Resume 0]"

subsection \<open>Markers and phases\<close>

text \<open>A node that is shown: it exists and has the native \<open>open\<close> attribute.\<close>

definition shown :: "state \<Rightarrow> nat \<Rightarrow> bool" where
  "shown s n = (n < length (nodes s) \<and> hasAttribute ''open'' (nodes s ! n))"

text \<open>
  Where a suspended call stands: a call of \<open>open\<close> that is before its opened phase, one
  that has called \<open>showModal()\<close> and waits for the animations, a handler of the close
  notification that is before its closed phase.  For a handler, the node it works on
  with the marker it has set on that node: \<open>closing\<close> before its closed phase, \<open>closed\<close>
  from then on.
\<close>

fun before_opened :: "task \<Rightarrow> bool" where
  "before_opened (Open_opening_hook i p r) = True"
| "before_opened (Open_paint i p) = True"
| "before_opened (Open_animations i p) = True"
| "before_opened (Open_opened_hook i p r) = False"
| "before_opened (Close_closing_hook i d r) = False"
| "before_opened (Close_animations i d) = False"
| "before_opened (Close_closed_hook i d r) = False"

fun after_show :: "task \<Rightarrow> bool" where
  "after_show (Open_opening_hook i p r) = False"
| "after_show (Open_paint i p) = False"
| "after_show (Open_animations i p) = True"
| "after_show (Open_opened_hook i p r) = False"
| "after_show (Close_closing_hook i d r) = False"
| "after_show (Close_animations i d) = False"
| "after_show (Close_closed_hook i d r) = False"

fun in_closing :: "task \<Rightarrow> bool" where
  "in_closing (Open_opening_hook i p r) = False"
| "in_closing (Open_paint i p) = False"
| "in_closing (Open_animations i p) = False"
| "in_closing (Open_opened_hook i p r) = False"
| "in_closing (Close_closing_hook i d r) = True"
| "in_closing (Close_animations i d) = True"
| "in_closing (Close_closed_hook i d r) = False"

fun handler_phase :: "task \<Rightarrow> (nat \<times> string) list" where
  "handler_phase (Open_opening_hook i p r) = []"
| "handler_phase (Open_paint i p) = []"
| "handler_phase (Open_animations i p) = []"
| "handler_phase (Open_opened_hook i p r) = []"
| "handler_phase (Close_closing_hook i d r) = [(d, ''closing'')]"
| "handler_phase (Close_animations i d) = [(d, ''closing'')]"
| "handler_phase (Close_closed_hook i d r) = [(d, ''closed'')]"

text \<open>
  Passes that do not race: \<open>open\<close> is not called while another call of \<open>open\<close> is before
  its opened phase, and a close notification is not delivered while \<open>isOpen\<close> is false.
  Every other action is free, at any moment: calls of \<open>close\<close>, dismissals, the order in
  which suspended calls resume, hooks that fail.
\<close>

fun orderly :: "action \<Rightarrow> sys \<Rightarrow> bool" where
  "orderly (Call_open i p) (s, ts) = (\<forall>t \<in> set ts. \<not> before_opened t)"
| "orderly (Call_close k) (s, ts) = True"
| "orderly (Mousedown t) (s, ts) = True"
| "orderly (Native_close n rv) (s, ts) = True"
| "orderly Fire_close (s, ts) = (isOpen s \<or> close_queue s = [])"
| "orderly (Resume k) (s, ts) = True"

fun orderly_run :: "action list \<Rightarrow> sys \<Rightarrow> bool" where
  "orderly_run [] x = True"
| "orderly_run (a # as) x = (orderly a x \<and> orderly_run as (step a x))"

text \<open>
  What holds of the markers in every state such passes reach.  Every node carries exactly
  one lifecycle marker, and the held node exists.  At most one call of \<open>open\<close> is before
  its opened phase; then \<open>isOpen\<close> is false and the held node carries \<open>opening\<close>.  At most
  one close notification is queued, at most one node is shown, and none is shown while a
  notification is queued; nothing is queued or shown while \<open>isOpen\<close> is false and no call
  of \<open>open\<close> waits for the entry animations.  At most one handler is before its closed
  phase; then \<open>isOpen\<close> is true and nothing is queued or shown.  The node of a handler
  carries the marker of the handler's phase.  While \<open>isOpen\<close> is true and something is
  queued or shown, the held node carries \<open>opened\<close>.  A node that is shown carries
  \<open>opening\<close> or \<open>opened\<close>.
\<close>

definition markers_ok :: "sys \<Rightarrow> bool" where
  "markers_ok x =
     (case x of (s, ts) \<Rightarrow>
        (\<forall>n < length (nodes s). length (lifecycle_markers (nodes s ! n)) = 1) \<and>
        (\<forall>d. dialog s = Some d \<longrightarrow> d < length (nodes s)) \<and>
        length (filter before_opened ts) \<le> 1 \<and>
        length (filter in_closing ts) \<le> 1 \<and>
        (\<forall>t \<in> set ts. before_opened t \<longrightarrow>
            \<not> isOpen s \<and>
            (\<forall>d. dialog s = Some d \<longrightarrow> lifecycle_markers (nodes s ! d) = [''opening''])) \<and>
        length (close_queue s) \<le> 1 \<and>
        (\<forall>n. shown s n \<longrightarrow> close_queue s = [] \<and> (\<forall>m. shown s m \<longrightarrow> m = n)) \<and>
        (\<not> isOpen s \<and> (\<forall>t \<in> set ts. \<not> after_show t) \<longrightarrow>
            close_queue s = [] \<and> (\<forall>n. \<not> shown s n)) \<and>
        (\<forall>t \<in> set ts. in_closing t \<longrightarrow>
            isOpen s \<and> close_queue s = [] \<and> (\<forall>n. \<not> shown s n)) \<and>
        (\<forall>t \<in> set ts. \<forall>(d, m) \<in> set (handler_phase t).
            d < length (nodes s) \<and> lifecycle_markers (nodes s ! d) = [m]) \<and>
        (\<forall>d. isOpen s \<and> dialog s = Some d \<and> (close_queue s \<noteq> [] \<or> (\<exists>n. shown s n)) \<longrightarrow>
              lifecycle_markers (nodes s ! d) = [''opened'']) \<and>
        (\<forall>n. shown s n \<longrightarrow>
            lifecycle_markers (nodes s ! n) = [''opening''] \<or>
            lifecycle_markers (nodes s ! n) = [''opened'']))"

text \<open>
  Three schedules.  In the first a pass for \<open>foo\<close> is closed, and while its handler waits
  for the closed hook \<open>open\<close> is called for \<open>bar\<close> and gets as far as the entry
  animations.  In the second \<open>close\<close> is called during the entry animations and the close
  notification is delivered before the opened phase.  In the third \<open>open\<close> is called twice
  in a row, the first call completes, the surface is closed and its notification
  delivered, and then the second call runs.
\<close>

definition round_trip_schedule :: "action list" where
  "round_trip_schedule =
     [Call_open ''foo'' None, Resume 0, Resume 0, Resume 0, Resume 0,
      Call_close None, Fire_close, Resume 0, Resume 0,
      Call_open ''bar'' None, Resume 1, Resume 1]"

definition early_close_schedule :: "action list" where
  "early_close_schedule =
     [Call_open ''foo'' None, Resume 0, Resume 0, Call_close None, Fire_close]"

definition overlap_schedule :: "action list" where
  "overlap_schedule =
     [Call_open ''foo'' None, Call_open ''foo'' None, Resume 0, Resume 1, Resume 1,
      Call_close None, Fire_close, Resume 0, Resume 2, Resume 2]"

subsection \<open>Well-formed states\<close>

text \<open>
  What holds in every state that any sequence of actions reaches: each signal is the
  promise its resolver belongs to, the two signals are different promises, the opened
  signal is pending while no surface is held, and the references to nodes are references
  to nodes that exist.
\<close>

definition well_formed :: "sys \<Rightarrow> bool" where
  "well_formed x =
     (case x of (s, ts) \<Rightarrow>
        opened s = resolveOpened s \<and> closed s = resolveClosed s \<and> opened s \<noteq> closed s \<and>
        opened s < length (promises s) \<and> closed s < length (promises s) \<and>
        (dialog s = None \<longrightarrow> promises s ! opened s = Pending) \<and>
        (\<forall>d. dialog s = Some d \<longrightarrow> d < length (nodes s)) \<and>
        (\<forall>t \<in> set ts. \<forall>d \<in> set (handler_nodes t). d < length (nodes s)))"

section \<open>Properties\<close>

lemmas segment_defs =
  open_dialog_def open_opened_phase_def onDialogClose_def close_closed_phase_def
  close_teardown_def new_opened_def new_closed_def update_node_def dispatchEvent_def
  resolve_def invoke_def showModal_def native_close_def close_def onLightDismiss_def
  setAttribute_def removeAttribute_def hasAttribute_def initDialogNode_def Let_def
  in_config_def

lemmas example_defs =
  init_def example_config_def no_hooks_def run_open_def run_onDialogClose_def complete_def
  opened_state_def

subsection \<open>The fields after each elementary step\<close>

lemma update_node_fields [simp]:
  "priv_id (update_node n f s) = priv_id s"
  "config (update_node n f s) = config s"
  "config_proto (update_node n f s) = config_proto s"
  "isOpen (update_node n f s) = isOpen s"
  "opened (update_node n f s) = opened s"
  "closed (update_node n f s) = closed s"
  "resolveOpened (update_node n f s) = resolveOpened s"
  "resolveClosed (update_node n f s) = resolveClosed s"
  "dialog (update_node n f s) = dialog s"
  "nodes (update_node n f s) = (nodes s)[n := f (nodes s ! n)]"
  "promises (update_node n f s) = promises s"
  "events (update_node n f s) = events s"
  "close_queue (update_node n f s) = close_queue s"
  by (simp_all add: update_node_def)

lemma dispatchEvent_fields [simp]:
  "priv_id (dispatchEvent e s) = priv_id s"
  "config (dispatchEvent e s) = config s"
  "config_proto (dispatchEvent e s) = config_proto s"
  "isOpen (dispatchEvent e s) = isOpen s"
  "opened (dispatchEvent e s) = opened s"
  "closed (dispatchEvent e s) = closed s"
  "resolveOpened (dispatchEvent e s) = resolveOpened s"
  "resolveClosed (dispatchEvent e s) = resolveClosed s"
  "dialog (dispatchEvent e s) = dialog s"
  "nodes (dispatchEvent e s) = nodes s"
  "promises (dispatchEvent e s) = promises s"
  "events (dispatchEvent e s) = events s @ [e]"
  "close_queue (dispatchEvent e s) = close_queue s"
  by (simp_all add: dispatchEvent_def)

lemma resolve_fields [simp]:
  "priv_id (resolve q d s) = priv_id s"
  "config (resolve q d s) = config s"
  "config_proto (resolve q d s) = config_proto s"
  "isOpen (resolve q d s) = isOpen s"
  "opened (resolve q d s) = opened s"
  "closed (resolve q d s) = closed s"
  "resolveOpened (resolve q d s) = resolveOpened s"
  "resolveClosed (resolve q d s) = resolveClosed s"
  "dialog (resolve q d s) = dialog s"
  "nodes (resolve q d s) = nodes s"
  "events (resolve q d s) = events s"
  "close_queue (resolve q d s) = close_queue s"
  by (simp_all add: resolve_def)

lemma promises_resolve:
  "promises (resolve q d s) =
     (if promises s ! q = Pending then (promises s)[q := Resolved d] else promises s)"
  by (simp add: resolve_def)

lemma new_opened_fields [simp]:
  "priv_id (new_opened s) = priv_id s"
  "config (new_opened s) = config s"
  "config_proto (new_opened s) = config_proto s"
  "isOpen (new_opened s) = isOpen s"
  "opened (new_opened s) = length (promises s)"
  "closed (new_opened s) = closed s"
  "resolveOpened (new_opened s) = length (promises s)"
  "resolveClosed (new_opened s) = resolveClosed s"
  "dialog (new_opened s) = dialog s"
  "nodes (new_opened s) = nodes s"
  "promises (new_opened s) = promises s @ [Pending]"
  "events (new_opened s) = events s"
  "close_queue (new_opened s) = close_queue s"
  by (simp_all add: new_opened_def)

lemma new_closed_fields [simp]:
  "priv_id (new_closed s) = priv_id s"
  "config (new_closed s) = config s"
  "config_proto (new_closed s) = config_proto s"
  "isOpen (new_closed s) = isOpen s"
  "opened (new_closed s) = opened s"
  "closed (new_closed s) = length (promises s)"
  "resolveOpened (new_closed s) = resolveOpened s"
  "resolveClosed (new_closed s) = length (promises s)"
  "dialog (new_closed s) = dialog s"
  "nodes (new_closed s) = nodes s"
  "promises (new_closed s) = promises s @ [Pending]"
  "events (new_closed s) = events s"
  "close_queue (new_closed s) = close_queue s"
  by (simp_all add: new_closed_def)

subsection \<open>What each segment does\<close>

lemma node_fields [simp]:
  "attached (setAttribute a v d) = attached d"
  "attached (removeAttribute a d) = attached d"
  "hasAttribute b (setAttribute a v d) = (b = a \<or> hasAttribute b d)"
  "hasAttribute b (removeAttribute a d) = (b \<noteq> a \<and> hasAttribute b d)"
  "hasAttribute b (d\<lparr>attached := x\<rparr>) = hasAttribute b d"
  "hasAttribute b (d\<lparr>returnValue := y\<rparr>) = hasAttribute b d"
  by (auto simp: setAttribute_def removeAttribute_def hasAttribute_def)

lemma nth_update_any:
  "(xs[i := x]) ! j = (if i = j \<and> i < length xs then x else xs ! j)"
  by (cases "i < length xs") (auto simp: list_update_beyond)

lemma update_node_twice:
  "update_node n f (update_node n g s) = update_node n (\<lambda>d. f (g d)) s"
  by (cases "n < length (nodes s)") (simp_all add: update_node_def list_update_beyond)

lemma fst_spawn [simp]: "fst (spawn x ts) = fst x"
  by (cases "(x, ts)" rule: spawn.cases) simp_all

lemma exec_snoc: "exec (as @ [a]) x = step a (exec as x)"
  by (induction as arbitrary: x) simp_all

lemma open_dialog_fresh:
  assumes "in_config s i" and "\<not> isOpen s"
  shows "open_dialog i p s =
           (s\<lparr>priv_id := i, dialog := Some (length (nodes s)),
              nodes := nodes s @ [opening_node],
              events := events s @ [DialogStateEvent Opening i (length (nodes s))]\<rparr>,
            case invoke (config s) i hook_opening (\<lambda>f. f opening_node p) of
              Throws e \<Rightarrow> Throw e
            | Returns r \<Rightarrow> Await (Open_opening_hook i p r))"
  using assms
  by (simp add: open_dialog_def Let_def update_node_def dispatchEvent_def opening_node_def
      setAttribute_def split: hook_beh.splits)

lemma open_dialog_open:
  "in_config s i \<Longrightarrow> isOpen s \<Longrightarrow> open_dialog i p s = (s\<lparr>priv_id := i\<rparr>, Return)"
  by (simp add: open_dialog_def)

lemma fst_open_opened_phase:
  assumes "dialog t = Some n"
  shows "fst (open_opened_phase i p t) =
           dispatchEvent (DialogStateEvent Opened i n)
             (resolve (resolveOpened t) n
                (update_node n (\<lambda>d. setAttribute ''opened'' '''' (removeAttribute ''opening'' d))
                   (t\<lparr>isOpen := True\<rparr>)))"
  using assms
  by (simp add: open_opened_phase_def Let_def update_node_twice split: hook_beh.splits)

lemma open_opened_phase_unheld:
  "dialog t = None \<Longrightarrow>
     open_opened_phase i p t =
       (t\<lparr>isOpen := True\<rparr>, Throw (TypeError ''this.__dialog is undefined''))"
  by (simp add: open_opened_phase_def)

lemma snd_open_opened_phase:
  "snd (open_opened_phase i p t) = Await x \<Longrightarrow> \<exists>r. x = Open_opened_hook i p r"
  by (auto simp: open_opened_phase_def Let_def split: option.splits hook_beh.splits)

lemma fst_onDialogClose:
  assumes "dialog t = Some d"
  shows "fst (onDialogClose t) =
           dispatchEvent (DialogStateEvent Closing (priv_id t) d)
             (update_node d (\<lambda>x. setAttribute ''closing'' '''' (removeAttribute ''opened'' x)) t)"
  using assms
  by (simp add: onDialogClose_def Let_def update_node_twice split: hook_beh.splits)

lemma snd_onDialogClose:
  "snd (onDialogClose t) = Await x \<Longrightarrow>
     \<exists>d r. dialog t = Some d \<and> x = Close_closing_hook (priv_id t) d r"
  by (auto simp: onDialogClose_def Let_def split: option.splits hook_beh.splits)

lemma fst_close_closed_phase:
  "fst (close_closed_phase i d t) =
     dispatchEvent (DialogStateEvent Closed i d)
       (resolve (resolveClosed t) d
          (update_node d (\<lambda>x. setAttribute ''closed'' '''' (removeAttribute ''closing'' x))
             (t\<lparr>isOpen := False\<rparr>)))"
  by (simp add: close_closed_phase_def Let_def update_node_twice split: hook_beh.splits)

lemma snd_close_closed_phase:
  "snd (close_closed_phase i d t) = Await x \<Longrightarrow> \<exists>r. x = Close_closed_hook i d r"
  by (auto simp: close_closed_phase_def Let_def split: hook_beh.splits)

lemma close_teardown_eq:
  "close_teardown d t =
     t\<lparr>priv_id := '''', dialog := None,
       nodes := (nodes t)[d := (nodes t ! d)\<lparr>attached := False\<rparr>],
       promises := promises t @ [Pending],
       resolveOpened := length (promises t), opened := length (promises t)\<rparr>"
  by (simp add: close_teardown_def Let_def update_node_def new_opened_def)

subsection \<open>Unregistered kinds\<close>

lemma in_config_own: "config s i = Some h \<Longrightarrow> in_config s i"
  by (auto simp: in_config_def)

lemma open_unknown_fails:
  "\<not> in_config s i \<Longrightarrow>
     open_dialog i p s = (s, Throw (Error (''No dialog configured for id: '' @ i)))"
  by (simp add: open_dialog_def)

text \<open>
  Claim C3.  The guard of \<open>open\<close> is \<open>!(id in this.#config)\<close>, and \<open>in\<close> also finds the
  names the configuration object inherits.  For the configuration \<open>{foo: {}, bar: {}}\<close>
  the id \<open>toString\<close> is not a registered kind, yet \<open>open({id: 'toString'})\<close> does not
  fail: it binds the id, creates, attaches and shows a surface, resolves the opened signal
  and returns with \<open>isOpen\<close> true.
\<close>

theorem open_inherited_name_opens:
  "''toString'' \<notin> dom example_config \<and>
   snd (run_open ''toString'' None (init example_config)) = Return \<and>
   priv_id (fst (run_open ''toString'' None (init example_config))) = ''toString'' \<and>
   isOpen (fst (run_open ''toString'' None (init example_config))) \<and>
   dialog (fst (run_open ''toString'' None (init example_config))) = Some 0 \<and>
   attached (nodes (fst (run_open ''toString'' None (init example_config))) ! 0) \<and>
   hasAttribute ''open'' (nodes (fst (run_open ''toString'' None (init example_config))) ! 0) \<and>
   promises (fst (run_open ''toString'' None (init example_config))) ! 0 = Resolved 0"
  by (simp add: segment_defs example_defs object_prototype_def)

subsection \<open>Closing without a surface\<close>

text \<open>
  Claim C10.  When the controller holds no surface, \<open>close(reason)\<close> returns the state
  unchanged for every reason, given or defaulted; \<open>close\<close> has no way to raise.
\<close>

theorem close_without_surface: "dialog s = None \<Longrightarrow> close k s = s"
  by (simp add: close_def)

theorem close_without_surface_witness:
  "dialog (init example_config) = None \<and>
   close (Some ''custom'') (init example_config) = init example_config"
  using close_without_surface [of "init example_config" "Some ''custom''"]
  by (simp add: init_def)

subsection \<open>Light dismiss\<close>

text \<open>
  Claim C8.  The listener tests the node name of the target, not whether the target is
  the surface.  A \<open>dialog\<close> element inside the content of the surface has the node name
  \<open>DIALOG\<close>: with \<open>foo\<close> open, a \<open>mousedown\<close> on such an element calls
  \<open>close("dismiss")\<close>, which takes the \<open>open\<close> attribute from the surface, records the
  result \<open>dismiss\<close> and queues the close notification.  (A target that is the surface
  itself does the same; a target in the content with another node name does nothing.)
\<close>

theorem light_dismiss_nested_dialog:
  "hasAttribute ''open'' (nodes opened_state ! 0) \<and> close_queue opened_state = [] \<and>
   close_queue (onLightDismiss (Content ''DIALOG'') opened_state) = [0] \<and>
   returnValue (nodes (onLightDismiss (Content ''DIALOG'') opened_state) ! 0) = ''dismiss'' \<and>
   \<not> hasAttribute ''open'' (nodes (onLightDismiss (Content ''DIALOG'') opened_state) ! 0) \<and>
   onLightDismiss (Content ''DIALOG'') opened_state =
     onLightDismiss (Surface 0) opened_state \<and>
   onLightDismiss (Content ''FORM'') opened_state = opened_state"
  by (simp add: segment_defs example_defs)

subsection \<open>Opening while open\<close>

text \<open>
  Claim C2.  \<open>open\<close> assigns \<open>this.#id = id\<close> before it tests \<open>isOpen\<close>.  With \<open>foo\<close> open,
  \<open>open({id: 'bar'})\<close> returns without raising and leaves the surface, the promises and
  the events as they were, but the bound kind is now \<open>bar\<close>.
\<close>

theorem open_while_open_rebinds_kind:
  "isOpen opened_state \<and> priv_id opened_state = ''foo'' \<and>
   open_dialog ''bar'' None opened_state = (opened_state\<lparr>priv_id := ''bar''\<rparr>, Return) \<and>
   priv_id (fst (open_dialog ''bar'' None opened_state)) \<noteq> priv_id opened_state"
  by (simp add: segment_defs example_defs)

subsection \<open>Hooks that fail\<close>

lemma invoke_Some:
  "cfg i = Some h \<Longrightarrow> sel h = Some f \<Longrightarrow> invoke cfg i sel app = app f"
  by (simp add: invoke_def)

text \<open>
  Claim C4.  Let \<open>open\<close> be called for a registered kind while \<open>isOpen\<close> is false, so that
  a pass begins, and let the opening hook throw \<open>e\<close> or return a promise that rejects
  with \<open>e\<close>.  Then \<open>open\<close> rejects with \<open>e\<close>.  The only event of the pass is \<open>opening\<close>, no
  promise is resolved, \<open>isOpen\<close> is still false, and the new surface stays attached and
  held, carrying the marker \<open>opening\<close>.  Resuming after the rejection changes nothing,
  whatever ran in between.
\<close>

theorem opening_hook_failure:
  assumes "config s i = Some h" and "hook_opening h = Some f" and "\<not> isOpen s"
    and "f opening_node p = Throws e \<or> f opening_node p = Returns (Rejects e)"
  shows "\<exists>t. run_open i p s = (t, Throw e) \<and>
           events t = events s @ [DialogStateEvent Opening i (length (nodes s))] \<and>
           promises t = promises s \<and> opened t = opened s \<and>
           resolveOpened t = resolveOpened s \<and>
           \<not> isOpen t \<and>
           dialog t = Some (length (nodes s)) \<and>
           nodes t = nodes s @ [opening_node] \<and> attached opening_node \<and>
           lifecycle_markers opening_node = [''opening''] \<and>
           (\<forall>u. resume (Open_opening_hook i p (Rejects e)) u = (u, Throw e))"
  using assms in_config_own [of s i h]
  by (auto simp: run_open_def complete_def open_dialog_def Let_def invoke_Some
      update_node_def dispatchEvent_def opening_node_def setAttribute_def initDialogNode_def
      dom_def lifecycle_markers_def hasAttribute_def)

theorem opening_hook_failure_witness:
  "config (init rejecting_opening) ''bar'' =
     Some (no_hooks\<lparr>hook_opening := Some (\<lambda>d p. Returns (Rejects (Error ''boom'')))\<rparr>) \<and>
   \<not> isOpen (init rejecting_opening) \<and>
   (\<exists>t. run_open ''bar'' None (init rejecting_opening) = (t, Throw (Error ''boom'')) \<and>
        events t = [DialogStateEvent Opening ''bar'' 0] \<and>
        promises t = [Pending, Pending] \<and> \<not> isOpen t \<and> dialog t = Some 0)"
  using opening_hook_failure [of "init rejecting_opening" "''bar''"
      "no_hooks\<lparr>hook_opening := Some (\<lambda>d p. Returns (Rejects (Error ''boom'')))\<rparr>"
      "\<lambda>d p. Returns (Rejects (Error ''boom''))" None "Error ''boom''"]
  by (auto simp add: init_def rejecting_opening_def no_hooks_def)

text \<open>
  Claim C5.  Let the close notification arrive while the controller holds the surface
  \<open>d\<close>, and let the closing hook of the bound kind throw \<open>e\<close> or return a promise that
  rejects with \<open>e\<close>.  Then the handler rejects with \<open>e\<close> and nothing after the hook runs:
  the only event is \<open>closing\<close>, no promise is resolved and the closed signal is not
  replaced, the surface is as attached as it was and still held, and \<open>isOpen\<close> keeps its
  value (true, when the surface was open).  Only the markers changed, from \<open>opened\<close> to
  \<open>closing\<close>.
\<close>

theorem closing_hook_failure:
  assumes "dialog s = Some d" and "d < length (nodes s)"
    and "config s (priv_id s) = Some h" and "hook_closing h = Some f"
    and "f (closing_node (nodes s ! d)) = Throws e \<or>
         f (closing_node (nodes s ! d)) = Returns (Rejects e)"
  shows "\<exists>t. run_onDialogClose s = (t, Throw e) \<and>
           events t = events s @ [DialogStateEvent Closing (priv_id s) d] \<and>
           promises t = promises s \<and> closed t = closed s \<and>
           resolveClosed t = resolveClosed s \<and>
           nodes t = (nodes s)[d := closing_node (nodes s ! d)] \<and>
           attached (nodes t ! d) = attached (nodes s ! d) \<and>
           dialog t = Some d \<and>
           isOpen t = isOpen s \<and>
           (\<forall>u. resume (Close_closing_hook (priv_id s) d (Rejects e)) u = (u, Throw e))"
  using assms
  by (auto simp: run_onDialogClose_def complete_def onDialogClose_def Let_def invoke_Some
      update_node_def dispatchEvent_def closing_node_def setAttribute_def removeAttribute_def)

theorem closing_hook_failure_witness:
  "dialog (close None (fst (run_open ''foo'' None (init throwing_closing)))) = Some 0 \<and>
   isOpen (close None (fst (run_open ''foo'' None (init throwing_closing)))) \<and>
   (\<exists>t. run_onDialogClose (close None (fst (run_open ''foo'' None (init throwing_closing)))) =
          (t, Throw (Error ''boom'')) \<and>
        events t = [DialogStateEvent Opening ''foo'' 0, DialogStateEvent Opened ''foo'' 0,
                    DialogStateEvent Closing ''foo'' 0] \<and>
        attached (nodes t ! 0) \<and> dialog t = Some 0 \<and> isOpen t \<and>
        promises t ! closed t = Pending)"
  using closing_hook_failure [of "close None (fst (run_open ''foo'' None (init throwing_closing)))"
      0 "no_hooks\<lparr>hook_closing := Some (\<lambda>d. Throws (Error ''boom''))\<rparr>"
      "\<lambda>d. Throws (Error ''boom'')" "Error ''boom''"]
  by (auto simp add: segment_defs init_def run_open_def complete_def throwing_closing_def
      no_hooks_def)

subsection \<open>Reachable states\<close>

lemma well_formed_spawn:
  assumes "well_formed (s, ts)"
    and "\<And>t. st = Await t \<Longrightarrow> \<forall>d \<in> set (handler_nodes t). d < length (nodes s)"
  shows "well_formed (spawn (s, st) ts)"
  using assms by (cases st) (auto simp: well_formed_def)

lemma well_formed_pool:
  "well_formed (s, ts) \<Longrightarrow> set ts' \<subseteq> set ts \<Longrightarrow> well_formed (s, ts')"
  by (auto simp: well_formed_def)

lemma well_formed_open:
  "well_formed (s, ts) \<Longrightarrow> well_formed (spawn (open_dialog i p s) ts)"
  by (auto simp: well_formed_def open_dialog_def Let_def nth_append less_Suc_eq
      split: hook_beh.splits)

lemma well_formed_native_close:
  "well_formed (s, ts) \<Longrightarrow> well_formed (native_close n rv s, ts)"
  by (auto simp: well_formed_def native_close_def)

lemma well_formed_close: "well_formed (s, ts) \<Longrightarrow> well_formed (close k s, ts)"
  by (auto simp: close_def well_formed_native_close split: option.splits)

lemma well_formed_onDialogClose:
  "well_formed (s, ts) \<Longrightarrow> well_formed (spawn (onDialogClose (s\<lparr>close_queue := q\<rparr>)) ts)"
  by (auto simp: well_formed_def onDialogClose_def Let_def
      split: option.splits hook_beh.splits)

lemma well_formed_resume:
  assumes "well_formed (s, ts)" and "t \<in> set ts" and "set ts' \<subseteq> set ts"
  shows "well_formed (spawn (resume t s) ts')"
proof -
  have wf: "well_formed (s, ts')" using assms(1,3) by (rule well_formed_pool)
  have d: "\<forall>d \<in> set (handler_nodes t). d < length (nodes s)"
    using assms(1,2) by (auto simp: well_formed_def)
  show ?thesis
  proof (cases t)
    case (Open_opening_hook i p r)
    then show ?thesis using wf by (cases r) (auto simp: well_formed_def)
  next
    case (Open_paint i p)
    then show ?thesis using wf
      by (auto simp: well_formed_def showModal_def split: option.splits)
  next
    case (Open_animations i p)
    then show ?thesis using wf
      by (auto simp: well_formed_def open_opened_phase_def Let_def promises_resolve
          split: option.splits hook_beh.splits)
  next
    case (Open_opened_hook i p r)
    then show ?thesis using wf
      by (cases r) (auto simp: well_formed_def nth_append)
  next
    case (Close_closing_hook i d r)
    then show ?thesis using wf d by (cases r) (auto simp: well_formed_def)
  next
    case (Close_animations i d)
    then show ?thesis using wf d
      by (auto simp: well_formed_def close_closed_phase_def Let_def promises_resolve
          split: hook_beh.splits)
  next
    case (Close_closed_hook i d r)
    then show ?thesis using wf
      by (cases r) (auto simp: well_formed_def close_teardown_def Let_def)
  qed
qed

lemma well_formed_step: "well_formed x \<Longrightarrow> well_formed (step a x)"
proof -
  assume wf: "well_formed x"
  obtain s ts where x: "x = (s, ts)" by (cases x)
  note wf = wf [unfolded x]
  show ?thesis
  proof (cases a)
    case (Call_open i p)
    then show ?thesis using well_formed_open [OF wf] x by simp
  next
    case (Call_close k)
    then show ?thesis using well_formed_close [OF wf] x by simp
  next
    case (Mousedown t)
    then show ?thesis using well_formed_close [OF wf] wf x by (simp add: onLightDismiss_def)
  next
    case (Native_close n rv)
    then show ?thesis using well_formed_native_close [OF wf] wf x by simp
  next
    case Fire_close
    then show ?thesis using well_formed_onDialogClose [OF wf] wf x
      by (simp split: list.splits)
  next
    case (Resume k)
    show ?thesis
    proof (cases "k < length ts")
      case True
      have "set (take k ts @ drop (Suc k) ts) \<subseteq> set ts"
        using set_take_subset [of k ts] set_drop_subset [of "Suc k" ts] by auto
      then show ?thesis
        using well_formed_resume [OF wf nth_mem [OF True]] x Resume True by simp
    next
      case False
      then show ?thesis using wf x Resume by simp
    qed
  qed
qed

lemma well_formed_exec: "well_formed x \<Longrightarrow> well_formed (exec as x)"
  by (induction as arbitrary: x) (simp_all add: well_formed_step)

lemma well_formed_init: "well_formed (init cfg, [])"
  by (simp add: well_formed_def init_def)

lemma reachable_well_formed: "exec as (init cfg, []) = (s, ts) \<Longrightarrow> well_formed (s, ts)"
  using well_formed_exec [OF well_formed_init, of as cfg] by simp

subsection \<open>A failing opened hook\<close>





subsection \<open>The closed signal\<close>

text \<open>
  Claim C6, as stated, fails.  The handler resolves the closed signal, dispatches the
  \<open>closed\<close> event and calls the closed hook in one segment, and detaches the surface only
  after the \<open>await\<close> of that hook.  The continuation of a caller awaiting the signal is
  queued at the resolution, ahead of the handler's own continuation, so the caller
  resumes in the state the handler left at that \<open>await\<close>: the signal is resolved and
  \<open>isOpen\<close> is false, but the surface is attached and the controller holds it.
\<close>

theorem closed_signal_counterexample:
  "promises closed_signalled_state ! closed closed_signalled_state = Resolved 0 \<and>
   \<not> isOpen closed_signalled_state \<and>
   attached (nodes closed_signalled_state ! 0) \<and>
   dialog closed_signalled_state = Some 0"
  by (simp add: segment_defs example_defs closed_signalled_state_def close_pass_def)

text \<open>
  Claim C6, amended.  In every reachable state, whatever runs between the steps of the
  close sequence: the step of the handler that resolves the closed signal (the promise
  then in the field \<open>closed\<close>) first sets \<open>isOpen\<close> to false, and it changes neither the
  attachment of the surface nor the surface the controller holds; the signal is resolved
  with the surface if it was pending.  So when the signal is resolved, and the
  continuation of a caller awaiting it is queued, \<open>isOpen\<close> is false and the handler has
  not yet detached the surface or released it.  The last step of the handler, taken when
  the closed hook has succeeded, detaches the surface and releases the controller's
  reference: when the handler has returned, the surface is detached and the controller
  holds no surface.  That step leaves \<open>isOpen\<close> as it finds it.
\<close>

theorem closed_signal_before_teardown:
  assumes "exec as (init cfg, []) = (s, ts)" and "k < length ts"
    and "step (Resume k) (s, ts) = (s', ts')"
  shows "(ts ! k = Close_animations i d \<longrightarrow>
            \<not> isOpen s' \<and> promises s' ! closed s' \<noteq> Pending \<and>
            (promises s ! closed s = Pending \<longrightarrow> promises s' ! closed s' = Resolved d) \<and>
            attached (nodes s' ! d) = attached (nodes s ! d) \<and> dialog s' = dialog s) \<and>
         (ts ! k = Close_closed_hook i d Fulfils \<longrightarrow>
            \<not> attached (nodes s' ! d) \<and> dialog s' = None \<and> isOpen s' = isOpen s \<and>
            ts' = take k ts @ drop (Suc k) ts)"
proof -
  have wf: "well_formed (s, ts)" using assms(1) by (rule reachable_well_formed)
  have sig: "closed s = resolveClosed s" "closed s < length (promises s)"
    using wf by (auto simp: well_formed_def)
  have d: "d < length (nodes s)" if "handler_nodes (ts ! k) = [d]"
    using wf nth_mem [OF assms(2)] that by (auto simp: well_formed_def)
  have a: "\<not> isOpen s' \<and> promises s' ! closed s' \<noteq> Pending \<and>
           (promises s ! closed s = Pending \<longrightarrow> promises s' ! closed s' = Resolved d) \<and>
           attached (nodes s' ! d) = attached (nodes s ! d) \<and> dialog s' = dialog s"
    if t: "ts ! k = Close_animations i d"
  proof -
    have "fst (close_closed_phase i d s) = s'"
      using assms(2) arg_cong [where f = fst, OF assms(3)] t by simp
    then have s': "s' = dispatchEvent (DialogStateEvent Closed i d)
       (resolve (resolveClosed s) d
          (update_node d (\<lambda>x. setAttribute ''closed'' '''' (removeAttribute ''closing'' x))
             (s\<lparr>isOpen := False\<rparr>)))"
      by (simp add: fst_close_closed_phase)
    show ?thesis
      unfolding s' using sig d t by (simp add: promises_resolve)
  qed
  have b: "\<not> attached (nodes s' ! d) \<and> dialog s' = None \<and> isOpen s' = isOpen s \<and>
           ts' = take k ts @ drop (Suc k) ts"
    if t: "ts ! k = Close_closed_hook i d Fulfils"
    using assms(2,3) t d by (auto simp: close_teardown_def Let_def)
  show ?thesis using a b by blast
qed


theorem closed_signal_before_teardown_witness:
  "snd (exec closing_schedule (init example_config, [])) = [Close_animations ''foo'' 0] \<and>
   \<not> isOpen (fst (exec (closing_schedule @ [Resume 0]) (init example_config, []))) \<and>
   attached (nodes (fst (exec (closing_schedule @ [Resume 0]) (init example_config, []))) ! 0) \<and>
   dialog (fst (exec (closing_schedule @ [Resume 0]) (init example_config, []))) = Some 0 \<and>
   snd (exec (closing_schedule @ [Resume 0]) (init example_config, [])) =
     [Close_closed_hook ''foo'' 0 Fulfils] \<and>
   \<not> attached
       (nodes (fst (exec (closing_schedule @ [Resume 0, Resume 0]) (init example_config, []))) ! 0) \<and>
   dialog (fst (exec (closing_schedule @ [Resume 0, Resume 0]) (init example_config, []))) = None"
proof -
  let ?x = "exec closing_schedule (init example_config, [])"
  let ?y = "exec (closing_schedule @ [Resume 0]) (init example_config, [])"
  let ?z = "exec (closing_schedule @ [Resume 0, Resume 0]) (init example_config, [])"
  have x: "snd ?x = [Close_animations ''foo'' 0]"
    by (simp add: closing_schedule_def segment_defs init_def example_config_def no_hooks_def)
  have y: "snd ?y = [Close_closed_hook ''foo'' 0 Fulfils]"
    by (simp add: closing_schedule_def segment_defs init_def example_config_def no_hooks_def)
  have held: "attached (nodes (fst ?x) ! 0)" "dialog (fst ?x) = Some 0"
    by (simp_all add: closing_schedule_def segment_defs init_def example_config_def
        no_hooks_def)
  have xy: "step (Resume 0) (fst ?x, snd ?x) = (fst ?y, snd ?y)"
    using exec_snoc [of closing_schedule "Resume 0"] by simp
  have yz: "step (Resume 0) (fst ?y, snd ?y) = (fst ?z, snd ?z)"
    using exec_snoc [of "closing_schedule @ [Resume 0]" "Resume 0"] by simp
  have "\<not> isOpen (fst ?y) \<and> attached (nodes (fst ?y) ! 0) \<and> dialog (fst ?y) = Some 0"
    using closed_signal_before_teardown [OF surjective_pairing _ xy, of "''foo''" 0] x held
    by simp
  moreover have "\<not> attached (nodes (fst ?z) ! 0) \<and> dialog (fst ?z) = None"
    using closed_signal_before_teardown [OF surjective_pairing _ yz, of "''foo''" 0] y
    by simp
  ultimately show ?thesis using x y by simp
qed


subsection \<open>One surface at a time\<close>

text \<open>
  Claim C1.  The guard of \<open>open\<close> tests \<open>isOpen\<close>, which is false until the opened phase.
  A second call of \<open>open\<close> made while the first one waits for its opening hook passes the
  guard: it creates and attaches a second surface.  The controller then holds the
  second surface, and the first stays in the document with nothing referring to it.
\<close>

theorem second_open_attaches_second_surface:
  "attached_surfaces (fst double_open) = [0, 1] \<and> dialog (fst double_open) = Some 1 \<and>
   \<not> isOpen (fst double_open) \<and>
   snd double_open = [Open_opening_hook ''foo'' None Fulfils, Open_opening_hook ''foo'' None Fulfils]"
  by (simp add: double_open_def attached_surfaces_def segment_defs init_def
      example_config_def no_hooks_def)

subsection \<open>Markers under passes that do not race\<close>

lemma pool_split:
  assumes "k < length ts"
  obtains as bs where "ts = as @ ts ! k # bs" and "take k ts = as" and "drop (Suc k) ts = bs"
  using assms id_take_nth_drop by blast

lemma markers_unchanged [simp]:
  "lifecycle_markers (setAttribute ''open'' v d) = lifecycle_markers d"
  "lifecycle_markers (removeAttribute ''open'' d) = lifecycle_markers d"
  "lifecycle_markers (d\<lparr>attached := x\<rparr>) = lifecycle_markers d"
  "lifecycle_markers (d\<lparr>returnValue := y\<rparr>) = lifecycle_markers d"
  by (simp_all add: lifecycle_markers_def)

lemma markers_advance:
  "lifecycle_markers d = [''opening''] \<Longrightarrow>
     lifecycle_markers (setAttribute ''opened'' v (removeAttribute ''opening'' d)) = [''opened'']"
  "lifecycle_markers d = [''opened''] \<Longrightarrow>
     lifecycle_markers (setAttribute ''closing'' v (removeAttribute ''opened'' d)) = [''closing'']"
  "lifecycle_markers d = [''closing''] \<Longrightarrow>
     lifecycle_markers (setAttribute ''closed'' v (removeAttribute ''closing'' d)) = [''closed'']"
  by (auto simp: lifecycle_markers_def split: if_splits)

lemma markers_opening_node [simp]: "lifecycle_markers opening_node = [''opening'']"
  by (simp add: lifecycle_markers_def opening_node_def initDialogNode_def hasAttribute_def
      setAttribute_def)

lemma opening_node_hidden [simp]: "\<not> hasAttribute ''open'' opening_node"
  by (simp add: opening_node_def initDialogNode_def hasAttribute_def setAttribute_def)

lemma handler_phase_marker:
  "(e, m) \<in> set (handler_phase t) \<Longrightarrow>
     (in_closing t \<and> m = ''closing'') \<or> (\<not> in_closing t \<and> m = ''closed'')"
  by (cases t) simp_all

lemma after_show_before: "after_show t \<Longrightarrow> before_opened t"
  by (cases t) simp_all

lemma markers_okI:
  assumes "\<And>n. n < length (nodes s) \<Longrightarrow> length (lifecycle_markers (nodes s ! n)) = 1"
    and "\<And>d. dialog s = Some d \<Longrightarrow> d < length (nodes s)"
    and "length (filter before_opened ts) \<le> 1"
    and "length (filter in_closing ts) \<le> 1"
    and "\<And>t. t \<in> set ts \<Longrightarrow> before_opened t \<Longrightarrow>
           \<not> isOpen s \<and>
           (\<forall>d. dialog s = Some d \<longrightarrow> lifecycle_markers (nodes s ! d) = [''opening''])"
    and "length (close_queue s) \<le> 1"
    and "\<And>n. shown s n \<Longrightarrow> close_queue s = [] \<and> (\<forall>m. shown s m \<longrightarrow> m = n)"
    and "\<not> isOpen s \<Longrightarrow> \<forall>t \<in> set ts. \<not> after_show t \<Longrightarrow>
           close_queue s = [] \<and> (\<forall>n. \<not> shown s n)"
    and "\<And>t. t \<in> set ts \<Longrightarrow> in_closing t \<Longrightarrow>
           isOpen s \<and> close_queue s = [] \<and> (\<forall>n. \<not> shown s n)"
    and "\<And>t e m. t \<in> set ts \<Longrightarrow> (e, m) \<in> set (handler_phase t) \<Longrightarrow>
           e < length (nodes s) \<and> lifecycle_markers (nodes s ! e) = [m]"
    and "\<And>d. isOpen s \<Longrightarrow> dialog s = Some d \<Longrightarrow>
           close_queue s \<noteq> [] \<or> (\<exists>n. shown s n) \<Longrightarrow>
           lifecycle_markers (nodes s ! d) = [''opened'']"
    and "\<And>n. shown s n \<Longrightarrow>
           lifecycle_markers (nodes s ! n) = [''opening''] \<or>
           lifecycle_markers (nodes s ! n) = [''opened'']"
  shows "markers_ok (s, ts)"
  unfolding markers_ok_def prod.case
  apply (intro conjI)
  using assms(1) apply blast
  using assms(2) apply blast
  using assms(3) apply blast
  using assms(4) apply blast
  using assms(5) apply blast
  using assms(6) apply blast
  using assms(7) apply blast
  using assms(8) apply blast
  using assms(9) apply blast
  using assms(10) apply blast
  using assms(11) apply blast
  using assms(12) apply blast
  done

lemma markers_okD:
  assumes "markers_ok (s, ts)"
  shows "n < length (nodes s) \<Longrightarrow> length (lifecycle_markers (nodes s ! n)) = 1"
    and "dialog s = Some d \<Longrightarrow> d < length (nodes s)"
    and "length (filter before_opened ts) \<le> 1"
    and "length (filter in_closing ts) \<le> 1"
    and "t \<in> set ts \<Longrightarrow> before_opened t \<Longrightarrow>
           \<not> isOpen s \<and>
           (\<forall>d. dialog s = Some d \<longrightarrow> lifecycle_markers (nodes s ! d) = [''opening''])"
    and "length (close_queue s) \<le> 1"
    and "shown s n \<Longrightarrow> close_queue s = [] \<and> (\<forall>m. shown s m \<longrightarrow> m = n)"
    and "\<not> isOpen s \<Longrightarrow> \<forall>t \<in> set ts. \<not> after_show t \<Longrightarrow>
           close_queue s = [] \<and> (\<forall>n. \<not> shown s n)"
    and "t \<in> set ts \<Longrightarrow> in_closing t \<Longrightarrow>
           isOpen s \<and> close_queue s = [] \<and> (\<forall>n. \<not> shown s n)"
    and "t \<in> set ts \<Longrightarrow> (e, m) \<in> set (handler_phase t) \<Longrightarrow>
           e < length (nodes s) \<and> lifecycle_markers (nodes s ! e) = [m]"
    and "isOpen s \<Longrightarrow> dialog s = Some d \<Longrightarrow>
           close_queue s \<noteq> [] \<or> (\<exists>n. shown s n) \<Longrightarrow>
           lifecycle_markers (nodes s ! d) = [''opened'']"
    and "shown s n \<Longrightarrow>
           lifecycle_markers (nodes s ! n) = [''opening''] \<or>
           lifecycle_markers (nodes s ! n) = [''opened'']"
  using assms unfolding markers_ok_def prod.case by blast+

lemma filter_drop_nth:
  assumes "k < length ts"
  shows "length (filter P (take k ts @ drop (Suc k) ts)) \<le> length (filter P ts)"
    and "P t \<longrightarrow> P (ts ! k) \<Longrightarrow>
         length (filter P (take k ts @ drop (Suc k) ts @ [t])) \<le> length (filter P ts)"
    and "P (ts ! k) \<Longrightarrow> length (filter P ts) \<le> 1 \<Longrightarrow>
         filter P (take k ts @ drop (Suc k) ts) = []"
proof -
  obtain as bs where ts: "ts = as @ ts ! k # bs" and a: "take k ts = as"
    and b: "drop (Suc k) ts = bs"
    using assms by (rule pool_split)
  have l: "filter P ts = filter P (as @ ts ! k # bs)" using ts by simp
  show "length (filter P (take k ts @ drop (Suc k) ts)) \<le> length (filter P ts)"
    unfolding l a b by simp
  show "length (filter P (take k ts @ drop (Suc k) ts @ [t])) \<le> length (filter P ts)"
    if "P t \<longrightarrow> P (ts ! k)"
    unfolding l a b using that by simp
  show "filter P (take k ts @ drop (Suc k) ts) = []"
    if "P (ts ! k)" "length (filter P ts) \<le> 1"
    using that unfolding l a b by simp
qed

lemma rest_subset: "set (take k ts @ drop (Suc k) ts) \<subseteq> set ts"
  using set_take_subset [of k ts] set_drop_subset [of "Suc k" ts] by auto

lemma pool_cover:
  assumes "k < length ts"
  shows "set ts = insert (ts ! k) (set (take k ts @ drop (Suc k) ts))"
proof -
  obtain as bs where ts: "ts = as @ ts ! k # bs" and a: "take k ts = as"
    and b: "drop (Suc k) ts = bs"
    using assms by (rule pool_split)
  have "set ts = set (as @ ts ! k # bs)" using ts by simp
  then show ?thesis unfolding a b by simp
qed

lemma no_more:
  assumes "k < length ts" and "P (ts ! k)" and "length (filter P ts) \<le> 1"
    and "t \<in> set (take k ts @ drop (Suc k) ts)"
  shows "\<not> P t"
  using filter_drop_nth(3) [OF assms(1,2,3)] assms(4) by (auto simp: filter_empty_conv)

lemma markers_ok_keep:
  assumes mk: "markers_ok (s, ts)"
    and len: "length (nodes s') = length (nodes s)"
    and mark: "\<And>n. lifecycle_markers (nodes s' ! n) = lifecycle_markers (nodes s ! n)"
    and sh: "\<And>n. shown s' n = shown s n"
    and io: "isOpen s' = isOpen s"
    and dlg: "dialog s' = dialog s \<or> dialog s' = None"
    and q: "close_queue s' = close_queue s \<or> close_queue s' = []"
    and b: "length (filter before_opened ts') \<le> length (filter before_opened ts)"
    and c: "length (filter in_closing ts') \<le> length (filter in_closing ts)"
    and sub: "\<And>t. t \<in> set ts' \<Longrightarrow>
                (before_opened t \<longrightarrow> (\<exists>u \<in> set ts. before_opened u)) \<and>
                (in_closing t \<longrightarrow> (\<exists>u \<in> set ts. in_closing u)) \<and>
                (\<forall>x \<in> set (handler_phase t). \<exists>u \<in> set ts. x \<in> set (handler_phase u))"
    and a: "\<forall>t \<in> set ts'. \<not> after_show t \<Longrightarrow> \<forall>t \<in> set ts. \<not> after_show t"
  shows "markers_ok (s', ts')"
proof (rule markers_okI)
  fix n assume "n < length (nodes s')"
  then show "length (lifecycle_markers (nodes s' ! n)) = 1"
    using markers_okD(1) [OF mk, of n] by (simp add: len mark)
next
  fix d assume "dialog s' = Some d"
  then show "d < length (nodes s')"
    using markers_okD(2) [OF mk, of d] dlg by (auto simp: len)
next
  show "length (filter before_opened ts') \<le> 1"
    using markers_okD(3) [OF mk] b by simp
next
  show "length (filter in_closing ts') \<le> 1"
    using markers_okD(4) [OF mk] c by simp
next
  fix t assume "t \<in> set ts'" "before_opened t"
  then obtain u where "u \<in> set ts" "before_opened u" using sub by blast
  then have "\<not> isOpen s \<and>
      (\<forall>d. dialog s = Some d \<longrightarrow> lifecycle_markers (nodes s ! d) = [''opening''])"
    by (rule markers_okD(5) [OF mk])
  then show "\<not> isOpen s' \<and>
      (\<forall>d. dialog s' = Some d \<longrightarrow> lifecycle_markers (nodes s' ! d) = [''opening''])"
    using dlg by (auto simp: io mark)
next
  show "length (close_queue s') \<le> 1"
    using markers_okD(6) [OF mk] q by auto
next
  fix n assume "shown s' n"
  then have "close_queue s = [] \<and> (\<forall>m. shown s m \<longrightarrow> m = n)"
    using markers_okD(7) [OF mk, of n] by (simp add: sh)
  then show "close_queue s' = [] \<and> (\<forall>m. shown s' m \<longrightarrow> m = n)"
    using q by (auto simp: sh)
next
  assume "\<not> isOpen s'" "\<forall>t \<in> set ts'. \<not> after_show t"
  then have "close_queue s = [] \<and> (\<forall>n. \<not> shown s n)"
    using markers_okD(8) [OF mk] a by (simp add: io)
  then show "close_queue s' = [] \<and> (\<forall>n. \<not> shown s' n)"
    using q by (auto simp: sh)
next
  fix t assume "t \<in> set ts'" "in_closing t"
  then obtain u where "u \<in> set ts" "in_closing u" using sub by blast
  then have "isOpen s \<and> close_queue s = [] \<and> (\<forall>n. \<not> shown s n)"
    by (rule markers_okD(9) [OF mk])
  then show "isOpen s' \<and> close_queue s' = [] \<and> (\<forall>n. \<not> shown s' n)"
    using q by (auto simp: sh io)
next
  fix t e m assume "t \<in> set ts'" "(e, m) \<in> set (handler_phase t)"
  then obtain u where "u \<in> set ts" "(e, m) \<in> set (handler_phase u)" using sub by blast
  then have "e < length (nodes s) \<and> lifecycle_markers (nodes s ! e) = [m]"
    by (rule markers_okD(10) [OF mk])
  then show "e < length (nodes s') \<and> lifecycle_markers (nodes s' ! e) = [m]"
    by (simp add: len mark)
next
  fix d assume "isOpen s'" "dialog s' = Some d" "close_queue s' \<noteq> [] \<or> (\<exists>n. shown s' n)"
  then have "isOpen s" "dialog s = Some d" "close_queue s \<noteq> [] \<or> (\<exists>n. shown s n)"
    using dlg q by (auto simp: io sh)
  then show "lifecycle_markers (nodes s' ! d) = [''opened'']"
    using markers_okD(11) [OF mk, of d] by (simp add: mark)
next
  fix n assume "shown s' n"
  then show "lifecycle_markers (nodes s' ! n) = [''opening''] \<or>
             lifecycle_markers (nodes s' ! n) = [''opened'']"
    using markers_okD(12) [OF mk, of n] by (simp add: sh mark)
qed

lemma resume_keep:
  assumes mk: "markers_ok (s, ts)" and k: "k < length ts"
    and r: "resume (ts ! k) s = (s', st)"
    and len: "length (nodes s') = length (nodes s)"
    and mark: "\<And>n. lifecycle_markers (nodes s' ! n) = lifecycle_markers (nodes s ! n)"
    and sh: "\<And>n. shown s' n = shown s n"
    and io: "isOpen s' = isOpen s"
    and dlg: "dialog s' = dialog s \<or> dialog s' = None"
    and q: "close_queue s' = close_queue s \<or> close_queue s' = []"
    and na: "\<not> after_show (ts ! k)"
    and st: "\<And>t. st = Await t \<Longrightarrow>
               (before_opened t \<longrightarrow> before_opened (ts ! k)) \<and>
               (in_closing t \<longrightarrow> in_closing (ts ! k)) \<and>
               (handler_phase t = [] \<or> handler_phase t = handler_phase (ts ! k))"
  shows "markers_ok (spawn (resume (ts ! k) s) (take k ts @ drop (Suc k) ts))"
proof -
  let ?rest = "take k ts @ drop (Suc k) ts"
  note cover = pool_cover [OF k]
  have in_pool: "ts ! k \<in> set ts" using k by simp
  have rest: "\<And>t. t \<in> set ?rest \<Longrightarrow> t \<in> set ts" using rest_subset [of k ts] by blast
  have a: "\<forall>t \<in> set ts. \<not> after_show t" if "\<forall>t \<in> set ts'. \<not> after_show t"
    and "set ?rest \<subseteq> set ts'" for ts'
    using that na cover by auto
  show ?thesis
  proof (cases st)
    case (Await t)
    note t = st [OF Await]
    have "markers_ok (s', ?rest @ [t])"
    proof (rule markers_ok_keep [OF mk len mark sh io dlg q])
      show "length (filter before_opened (?rest @ [t])) \<le> length (filter before_opened ts)"
        using filter_drop_nth(2) [OF k, of before_opened t] t by simp
      show "length (filter in_closing (?rest @ [t])) \<le> length (filter in_closing ts)"
        using filter_drop_nth(2) [OF k, of in_closing t] t by simp
      show "\<forall>u \<in> set ts. \<not> after_show u" if "\<forall>u \<in> set (?rest @ [t]). \<not> after_show u"
        using a [of "?rest @ [t]"] that by auto
    next
      fix u assume "u \<in> set (?rest @ [t])"
      then consider "u \<in> set ts" | "u = t" using rest by auto
      then show "(before_opened u \<longrightarrow> (\<exists>v \<in> set ts. before_opened v)) \<and>
                 (in_closing u \<longrightarrow> (\<exists>v \<in> set ts. in_closing v)) \<and>
                 (\<forall>x \<in> set (handler_phase u). \<exists>v \<in> set ts. x \<in> set (handler_phase v))"
      proof cases
        case 1
        then show ?thesis by blast
      next
        case 2
        then show ?thesis using t in_pool by auto
      qed
    qed
    then show ?thesis using r Await by simp
  next
    case Return
    have "markers_ok (s', ?rest)"
    proof (rule markers_ok_keep [OF mk len mark sh io dlg q])
      show "length (filter before_opened ?rest) \<le> length (filter before_opened ts)"
        by (rule filter_drop_nth(1) [OF k])
      show "length (filter in_closing ?rest) \<le> length (filter in_closing ts)"
        by (rule filter_drop_nth(1) [OF k])
      show "\<forall>u \<in> set ts. \<not> after_show u" if "\<forall>u \<in> set ?rest. \<not> after_show u"
        using a [of ?rest] that by auto
    next
      fix u assume "u \<in> set ?rest"
      then have "u \<in> set ts" by (rule rest)
      then show "(before_opened u \<longrightarrow> (\<exists>v \<in> set ts. before_opened v)) \<and>
                 (in_closing u \<longrightarrow> (\<exists>v \<in> set ts. in_closing v)) \<and>
                 (\<forall>x \<in> set (handler_phase u). \<exists>v \<in> set ts. x \<in> set (handler_phase v))"
        by blast
    qed
    then show ?thesis using r Return by simp
  next
    case (Throw e)
    have "markers_ok (s', ?rest)"
    proof (rule markers_ok_keep [OF mk len mark sh io dlg q])
      show "length (filter before_opened ?rest) \<le> length (filter before_opened ts)"
        by (rule filter_drop_nth(1) [OF k])
      show "length (filter in_closing ?rest) \<le> length (filter in_closing ts)"
        by (rule filter_drop_nth(1) [OF k])
      show "\<forall>u \<in> set ts. \<not> after_show u" if "\<forall>u \<in> set ?rest. \<not> after_show u"
        using a [of ?rest] that by auto
    next
      fix u assume "u \<in> set ?rest"
      then have "u \<in> set ts" by (rule rest)
      then show "(before_opened u \<longrightarrow> (\<exists>v \<in> set ts. before_opened v)) \<and>
                 (in_closing u \<longrightarrow> (\<exists>v \<in> set ts. in_closing v)) \<and>
                 (\<forall>x \<in> set (handler_phase u). \<exists>v \<in> set ts. x \<in> set (handler_phase v))"
        by blast
    qed
    then show ?thesis using r Throw by simp
  qed
qed

lemma state_keep:
  assumes mk: "markers_ok (s, ts)"
    and len: "length (nodes s') = length (nodes s)"
    and mark: "\<And>n. lifecycle_markers (nodes s' ! n) = lifecycle_markers (nodes s ! n)"
    and sh: "\<And>n. shown s' n = shown s n"
    and io: "isOpen s' = isOpen s"
    and dlg: "dialog s' = dialog s \<or> dialog s' = None"
    and q: "close_queue s' = close_queue s \<or> close_queue s' = []"
  shows "markers_ok (s', ts)"
  by (rule markers_ok_keep [OF mk len mark sh io dlg q]) auto

lemma open_fresh_mk:
  assumes mk: "markers_ok (s, ts)" and reg: "in_config s i" and cl: "\<not> isOpen s"
    and nb: "\<forall>t \<in> set ts. \<not> before_opened t"
  shows "markers_ok (spawn (open_dialog i p s) ts)"
proof -
  let ?n = "length (nodes s)"
  let ?s = "s\<lparr>priv_id := i, dialog := Some ?n, nodes := nodes s @ [opening_node],
               events := events s @ [DialogStateEvent Opening i ?n]\<rparr>"
  have na: "\<forall>t \<in> set ts. \<not> after_show t" using nb after_show_before by blast
  have idle: "close_queue s = []" "\<And>n. \<not> shown s n"
    using markers_okD(8) [OF mk cl na] by simp_all
  have nc: "\<forall>t \<in> set ts. \<not> in_closing t" using markers_okD(9) [OF mk] cl by blast
  have fb: "filter before_opened ts = []" using nb by (simp add: filter_empty_conv)
  have fc: "filter in_closing ts = []" using nc by (simp add: filter_empty_conv)
  have sh: "\<And>n. \<not> shown ?s n"
    using idle(2) by (auto simp: shown_def nth_append less_Suc_eq)
  have core: "markers_ok (?s, ts')"
    if ts': "ts' = ts \<or> (\<exists>r. ts' = ts @ [Open_opening_hook i p r])" for ts'
  proof (rule markers_okI)
    fix n assume "n < length (nodes ?s)"
    then show "length (lifecycle_markers (nodes ?s ! n)) = 1"
      using markers_okD(1) [OF mk, of n] by (auto simp: nth_append less_Suc_eq)
  next
    fix d assume "dialog ?s = Some d"
    then show "d < length (nodes ?s)" by auto
  next
    show "length (filter before_opened ts') \<le> 1" using ts' fb by auto
  next
    show "length (filter in_closing ts') \<le> 1" using ts' fc by auto
  next
    show "\<not> isOpen ?s \<and>
          (\<forall>d. dialog ?s = Some d \<longrightarrow> lifecycle_markers (nodes ?s ! d) = [''opening''])"
      using cl by simp
  next
    show "length (close_queue ?s) \<le> 1" using idle by simp
  next
    fix n assume "shown ?s n"
    then show "close_queue ?s = [] \<and> (\<forall>m. shown ?s m \<longrightarrow> m = n)" using sh by blast
  next
    show "close_queue ?s = [] \<and> (\<forall>n. \<not> shown ?s n)" using idle(1) sh by simp
  next
    fix t assume "t \<in> set ts'" "in_closing t"
    then show "isOpen ?s \<and> close_queue ?s = [] \<and> (\<forall>n. \<not> shown ?s n)"
      using ts' nc by auto
  next
    fix t e m assume "t \<in> set ts'" and em: "(e, m) \<in> set (handler_phase t)"
    then have "t \<in> set ts" using ts' by auto
    then have "e < length (nodes s) \<and> lifecycle_markers (nodes s ! e) = [m]"
      using em by (rule markers_okD(10) [OF mk])
    then show "e < length (nodes ?s) \<and> lifecycle_markers (nodes ?s ! e) = [m]"
      by (simp add: nth_append)
  next
    fix d assume "isOpen ?s"
    then show "lifecycle_markers (nodes ?s ! d) = [''opened'']" using cl by simp
  next
    fix n assume "shown ?s n"
    then show "lifecycle_markers (nodes ?s ! n) = [''opening''] \<or>
               lifecycle_markers (nodes ?s ! n) = [''opened'']"
      using sh by blast
  qed
  show ?thesis
    using core by (auto simp: open_dialog_fresh [OF reg cl] split: hook_beh.splits)
qed

lemma show_mk:
  assumes mk: "markers_ok (s, ts)" and k: "k < length ts" and tk: "ts ! k = Open_paint i p"
    and held: "dialog s = Some n"
  shows "markers_ok (update_node n (setAttribute ''open'' '''') s,
                     take k ts @ drop (Suc k) ts @ [Open_animations i p])"
proof -
  define s' where "s' = update_node n (setAttribute ''open'' '''') s"
  let ?rest = "take k ts @ drop (Suc k) ts"
  let ?ts = "take k ts @ drop (Suc k) ts @ [Open_animations i p]"
  have in_pool: "ts ! k \<in> set ts" using k by simp
  have bo: "before_opened (ts ! k)" by (simp add: tk)
  have cl: "\<not> isOpen s" and op: "lifecycle_markers (nodes s ! n) = [''opening'']"
    using markers_okD(5) [OF mk in_pool bo] held by simp_all
  have n: "n < length (nodes s)" using markers_okD(2) [OF mk held] .
  have rb: "\<And>t. t \<in> set ?rest \<Longrightarrow> \<not> before_opened t"
    using no_more [OF k bo markers_okD(3) [OF mk]] by blast
  have na: "\<forall>t \<in> set ts. \<not> after_show t"
    using pool_cover [OF k] rb after_show_before tk by auto
  have idle: "close_queue s = []" "\<And>m. \<not> shown s m"
    using markers_okD(8) [OF mk cl na] by simp_all
  have nc: "\<And>t. t \<in> set ts \<Longrightarrow> \<not> in_closing t" using markers_okD(9) [OF mk] cl by blast
  have rest: "\<And>t. t \<in> set ?rest \<Longrightarrow> t \<in> set ts" using rest_subset [of k ts] by blast
  have fb: "filter before_opened ?rest = []" using rb by (auto simp: filter_empty_conv)
  have fc: "filter in_closing ?ts = []" using nc rest by (auto simp: filter_empty_conv)
  have t: "\<not> isOpen s'" "dialog s' = Some n" "close_queue s' = []"
    "length (nodes s') = length (nodes s)"
    using cl held idle(1) by (simp_all add: s'_def)
  have mark: "\<And>m. lifecycle_markers (nodes s' ! m) = lifecycle_markers (nodes s ! m)"
    by (simp add: s'_def nth_update_any)
  have sh: "\<And>m. shown s' m = (m = n)"
    using idle(2) n by (auto simp: s'_def shown_def nth_update_any)
  have "markers_ok (s', ?ts)"
  proof (rule markers_okI)
    fix m assume "m < length (nodes s')"
    then show "length (lifecycle_markers (nodes s' ! m)) = 1"
      using markers_okD(1) [OF mk, of m] by (simp add: mark t)
  next
    fix d assume "dialog s' = Some d"
    then show "d < length (nodes s')" using n by (simp add: t)
  next
    show "length (filter before_opened ?ts) \<le> 1" using fb by simp
  next
    show "length (filter in_closing ?ts) \<le> 1" using fc by simp
  next
    show "\<not> isOpen s' \<and>
          (\<forall>d. dialog s' = Some d \<longrightarrow> lifecycle_markers (nodes s' ! d) = [''opening''])"
      using op by (simp add: mark t)
  next
    show "length (close_queue s') \<le> 1" by (simp add: t)
  next
    fix m assume "shown s' m"
    then show "close_queue s' = [] \<and> (\<forall>m'. shown s' m' \<longrightarrow> m' = m)"
      by (simp add: sh t)
  next
    assume "\<forall>t \<in> set ?ts. \<not> after_show t"
    then show "close_queue s' = [] \<and> (\<forall>m. \<not> shown s' m)" by simp
  next
    fix u assume "u \<in> set ?ts" "in_closing u"
    then show "isOpen s' \<and> close_queue s' = [] \<and> (\<forall>m. \<not> shown s' m)"
      using fc by (auto simp: filter_empty_conv)
  next
    fix u e m assume "u \<in> set ?ts" and em: "(e, m) \<in> set (handler_phase u)"
    then have "u \<in> set ts" using rest by auto
    then have "e < length (nodes s) \<and> lifecycle_markers (nodes s ! e) = [m]"
      using em by (rule markers_okD(10) [OF mk])
    then show "e < length (nodes s') \<and> lifecycle_markers (nodes s' ! e) = [m]"
      by (simp add: mark t)
  next
    fix d assume "isOpen s'"
    then show "lifecycle_markers (nodes s' ! d) = [''opened'']" by (simp add: t)
  next
    fix m assume "shown s' m"
    then show "lifecycle_markers (nodes s' ! m) = [''opening''] \<or>
               lifecycle_markers (nodes s' ! m) = [''opened'']"
      using op by (simp add: sh mark)
  qed
  then show ?thesis by (simp add: s'_def)
qed

lemma native_close_mk:
  assumes mk: "markers_ok (s, ts)" and n: "n < length (nodes s)"
  shows "markers_ok (native_close n rv s, ts)"
proof (cases "hasAttribute ''open'' (nodes s ! n)")
  case False
  then show ?thesis using mk by (simp add: native_close_def)
next
  case True
  let ?s = "native_close n rv s"
  have shn: "shown s n" using True n by (simp add: shown_def)
  have q: "close_queue s = []" and only: "\<And>m. shown s m \<Longrightarrow> m = n"
    using markers_okD(7) [OF mk shn] by simp_all
  have nc: "\<And>t. t \<in> set ts \<Longrightarrow> \<not> in_closing t" using markers_okD(9) [OF mk] shn by blast
  have busy: "isOpen s \<or> (\<exists>t \<in> set ts. after_show t)"
    using markers_okD(8) [OF mk] shn by blast
  have t: "isOpen ?s = isOpen s" "dialog ?s = dialog s" "close_queue ?s = [n]"
    "length (nodes ?s) = length (nodes s)"
    using True q by (simp_all add: native_close_def)
  have mark: "\<And>m. lifecycle_markers (nodes ?s ! m) = lifecycle_markers (nodes s ! m)"
    using True by (simp add: native_close_def nth_update_any)
  have sh: "\<And>m. \<not> shown ?s m"
    using True only by (auto simp: native_close_def shown_def nth_update_any)
  show ?thesis
  proof (rule markers_okI)
    fix m assume "m < length (nodes ?s)"
    then show "length (lifecycle_markers (nodes ?s ! m)) = 1"
      using markers_okD(1) [OF mk, of m] by (simp add: mark t)
  next
    fix d assume "dialog ?s = Some d"
    then show "d < length (nodes ?s)" using markers_okD(2) [OF mk, of d] by (simp add: t)
  next
    show "length (filter before_opened ts) \<le> 1" by (rule markers_okD(3) [OF mk])
  next
    show "length (filter in_closing ts) \<le> 1" by (rule markers_okD(4) [OF mk])
  next
    fix u assume "u \<in> set ts" "before_opened u"
    then show "\<not> isOpen ?s \<and>
          (\<forall>d. dialog ?s = Some d \<longrightarrow> lifecycle_markers (nodes ?s ! d) = [''opening''])"
      using markers_okD(5) [OF mk, of u] by (simp add: t mark)
  next
    show "length (close_queue ?s) \<le> 1" by (simp add: t)
  next
    fix m assume "shown ?s m"
    then show "close_queue ?s = [] \<and> (\<forall>m'. shown ?s m' \<longrightarrow> m' = m)" using sh by blast
  next
    assume "\<not> isOpen ?s" "\<forall>u \<in> set ts. \<not> after_show u"
    then show "close_queue ?s = [] \<and> (\<forall>m. \<not> shown ?s m)" using busy by (simp add: t)
  next
    fix u assume "u \<in> set ts" "in_closing u"
    then show "isOpen ?s \<and> close_queue ?s = [] \<and> (\<forall>m. \<not> shown ?s m)" using nc by blast
  next
    fix u e m assume "u \<in> set ts" "(e, m) \<in> set (handler_phase u)"
    then have "e < length (nodes s) \<and> lifecycle_markers (nodes s ! e) = [m]"
      by (rule markers_okD(10) [OF mk])
    then show "e < length (nodes ?s) \<and> lifecycle_markers (nodes ?s ! e) = [m]"
      by (simp add: t mark)
  next
    fix d assume "isOpen ?s" "dialog ?s = Some d"
    then show "lifecycle_markers (nodes ?s ! d) = [''opened'']"
      using markers_okD(11) [OF mk, of d] shn by (auto simp: t mark)
  next
    fix m assume "shown ?s m"
    then show "lifecycle_markers (nodes ?s ! m) = [''opening''] \<or>
               lifecycle_markers (nodes ?s ! m) = [''opened'']"
      using sh by blast
  qed
qed

lemma close_mk: "markers_ok (s, ts) \<Longrightarrow> markers_ok (close k s, ts)"
  using markers_okD(2) [of s ts] native_close_mk [of s ts]
  by (auto simp: close_def split: option.splits)

lemma fire_mk:
  assumes mk: "markers_ok (s, ts)" and io: "isOpen s" and qu: "close_queue s = n # q"
  shows "markers_ok (spawn (onDialogClose (s\<lparr>close_queue := q\<rparr>)) ts)"
proof -
  let ?s = "s\<lparr>close_queue := q\<rparr>"
  have q: "q = []" using markers_okD(6) [OF mk] qu by simp
  have ns: "\<And>m. \<not> shown s m" using markers_okD(7) [OF mk] qu by auto
  have nc: "\<And>t. t \<in> set ts \<Longrightarrow> \<not> in_closing t" using markers_okD(9) [OF mk] qu by auto
  have nb: "\<And>t. t \<in> set ts \<Longrightarrow> \<not> before_opened t" using markers_okD(5) [OF mk] io by blast
  have fb: "filter before_opened ts = []" using nb by (simp add: filter_empty_conv)
  have fc: "filter in_closing ts = []" using nc by (simp add: filter_empty_conv)
  show ?thesis
  proof (cases "dialog s")
    case None
    have "markers_ok (?s, ts)" by (rule state_keep [OF mk]) (simp_all add: shown_def q)
    then show ?thesis using None by (simp add: onDialogClose_def)
  next
    case (Some d)
    obtain s' st where r: "onDialogClose ?s = (s', st)" by (cases "onDialogClose ?s")
    have d: "d < length (nodes s)" using markers_okD(2) [OF mk Some] .
    have od: "lifecycle_markers (nodes s ! d) = [''opened'']"
      using markers_okD(11) [OF mk io Some] qu by simp
    have s': "s' = dispatchEvent (DialogStateEvent Closing (priv_id s) d)
                    (update_node d
                       (\<lambda>x. setAttribute ''closing'' '''' (removeAttribute ''opened'' x)) ?s)"
      using fst_onDialogClose [of ?s d] Some r by simp
    have t: "isOpen s'" "dialog s' = Some d" "close_queue s' = []"
      "length (nodes s') = length (nodes s)"
      using io Some q by (simp_all add: s')
    have nd: "\<And>m. m \<noteq> d \<Longrightarrow> nodes s' ! m = nodes s ! m" by (simp add: s' nth_update_any)
    have md: "lifecycle_markers (nodes s' ! d) = [''closing'']"
      using d od by (simp add: s' markers_advance)
    have sh: "\<And>m. \<not> shown s' m"
      using ns by (auto simp: shown_def s' nth_update_any split: if_splits)
    have tasks: "\<exists>r. x = Close_closing_hook (priv_id s) d r" if "st = Await x" for x
      using snd_onDialogClose [of ?s x] r Some that by auto
    have core: "markers_ok (s', ts')"
      if ts': "ts' = ts \<or> (\<exists>j r. ts' = ts @ [Close_closing_hook j d r])" for ts'
    proof (rule markers_okI)
      fix m assume "m < length (nodes s')"
      then show "length (lifecycle_markers (nodes s' ! m)) = 1"
        using markers_okD(1) [OF mk, of m] md nd [of m] by (cases "m = d") (simp_all add: t)
    next
      fix e assume "dialog s' = Some e"
      then show "e < length (nodes s')" using d by (simp add: t)
    next
      show "length (filter before_opened ts') \<le> 1" using ts' fb by auto
    next
      show "length (filter in_closing ts') \<le> 1" using ts' fc by auto
    next
      fix u assume "u \<in> set ts'" "before_opened u"
      then show "\<not> isOpen s' \<and>
          (\<forall>e. dialog s' = Some e \<longrightarrow> lifecycle_markers (nodes s' ! e) = [''opening''])"
        using ts' nb by auto
    next
      show "length (close_queue s') \<le> 1" by (simp add: t)
    next
      fix m assume "shown s' m"
      then show "close_queue s' = [] \<and> (\<forall>m'. shown s' m' \<longrightarrow> m' = m)" using sh by blast
    next
      assume "\<not> isOpen s'"
      then show "close_queue s' = [] \<and> (\<forall>m. \<not> shown s' m)" by (simp add: t)
    next
      show "isOpen s' \<and> close_queue s' = [] \<and> (\<forall>m. \<not> shown s' m)" using sh by (simp add: t)
    next
      fix u e m assume u: "u \<in> set ts'" and em: "(e, m) \<in> set (handler_phase u)"
      show "e < length (nodes s') \<and> lifecycle_markers (nodes s' ! e) = [m]"
      proof (cases "u \<in> set ts")
        case True
        then have old: "e < length (nodes s) \<and> lifecycle_markers (nodes s ! e) = [m]"
          using em by (rule markers_okD(10) [OF mk])
        have "m = ''closing'' \<or> m = ''closed''" using handler_phase_marker [OF em] by blast
        then have "e \<noteq> d" using old od by auto
        then show ?thesis using old nd by (simp add: t)
      next
        case False
        then have "e = d \<and> m = ''closing''" using u em ts' by auto
        then show ?thesis using d md by (simp add: t)
      qed
    next
      fix e assume "close_queue s' \<noteq> [] \<or> (\<exists>m. shown s' m)"
      then show "lifecycle_markers (nodes s' ! e) = [''opened'']" using sh by (simp add: t)
    next
      fix m assume "shown s' m"
      then show "lifecycle_markers (nodes s' ! m) = [''opening''] \<or>
                 lifecycle_markers (nodes s' ! m) = [''opened'']"
        using sh by blast
    qed
    show ?thesis using r core tasks by (cases st) auto
  qed
qed

lemma opened_mk:
  assumes mk: "markers_ok (s, ts)" and k: "k < length ts"
    and tk: "ts ! k = Open_animations i p"
  shows "markers_ok (spawn (open_opened_phase i p s) (take k ts @ drop (Suc k) ts))"
proof -
  let ?rest = "take k ts @ drop (Suc k) ts"
  have in_pool: "ts ! k \<in> set ts" using k by simp
  have bo: "before_opened (ts ! k)" by (simp add: tk)
  have cl: "\<not> isOpen s"
    and op: "\<And>d. dialog s = Some d \<Longrightarrow> lifecycle_markers (nodes s ! d) = [''opening'']"
    using markers_okD(5) [OF mk in_pool bo] by simp_all
  have rb: "\<And>t. t \<in> set ?rest \<Longrightarrow> \<not> before_opened t"
    using no_more [OF k bo markers_okD(3) [OF mk]] by blast
  have nc: "\<And>t. t \<in> set ts \<Longrightarrow> \<not> in_closing t" using markers_okD(9) [OF mk] cl by blast
  have rest: "\<And>t. t \<in> set ?rest \<Longrightarrow> t \<in> set ts" using rest_subset [of k ts] by blast
  have fb: "filter before_opened ?rest = []" using rb by (auto simp: filter_empty_conv)
  have fc: "filter in_closing ?rest = []" using nc rest by (auto simp: filter_empty_conv)
  obtain s' st where r: "open_opened_phase i p s = (s', st)"
    by (cases "open_opened_phase i p s")
  have tasks: "\<exists>r. x = Open_opened_hook i p r" if "st = Await x" for x
    using snd_open_opened_phase [of i p s x] r that by simp
  have view: "isOpen s' \<and> dialog s' = dialog s \<and> close_queue s' = close_queue s \<and>
      length (nodes s') = length (nodes s) \<and>
      (\<forall>d. dialog s = Some d \<longrightarrow> lifecycle_markers (nodes s' ! d) = [''opened'']) \<and>
      (\<forall>m. dialog s \<noteq> Some m \<longrightarrow> nodes s' ! m = nodes s ! m) \<and>
      (\<forall>m. shown s' m = shown s m)"
  proof (cases "dialog s")
    case None
    have "s' = fst (open_opened_phase i p s)" using r by simp
    then have "s' = s\<lparr>isOpen := True\<rparr>" using None by (simp add: open_opened_phase_unheld)
    then show ?thesis using None by (simp add: shown_def)
  next
    case (Some d)
    have d: "d < length (nodes s)" using markers_okD(2) [OF mk Some] .
    have "s' = fst (open_opened_phase i p s)" using r by simp
    then have s': "s' = dispatchEvent (DialogStateEvent Opened i d)
             (resolve (resolveOpened s) d
                (update_node d (\<lambda>x. setAttribute ''opened'' '''' (removeAttribute ''opening'' x))
                   (s\<lparr>isOpen := True\<rparr>)))"
      using fst_open_opened_phase [of s d i p] Some by simp
    show ?thesis
      using Some d op [OF Some]
      by (auto simp: s' shown_def nth_update_any markers_advance)
  qed
  have core: "markers_ok (s', ts')"
    if ts': "ts' = ?rest \<or> (\<exists>r. ts' = ?rest @ [Open_opened_hook i p r])" for ts'
  proof (rule markers_okI)
    fix m assume "m < length (nodes s')"
    then show "length (lifecycle_markers (nodes s' ! m)) = 1"
      using markers_okD(1) [OF mk, of m] view by (cases "dialog s = Some m") auto
  next
    fix e assume "dialog s' = Some e"
    then show "e < length (nodes s')" using markers_okD(2) [OF mk, of e] view by simp
  next
    show "length (filter before_opened ts') \<le> 1" using ts' fb by auto
  next
    show "length (filter in_closing ts') \<le> 1" using ts' fc by auto
  next
    fix u assume "u \<in> set ts'" "before_opened u"
    then show "\<not> isOpen s' \<and>
        (\<forall>e. dialog s' = Some e \<longrightarrow> lifecycle_markers (nodes s' ! e) = [''opening''])"
      using ts' rb by auto
  next
    show "length (close_queue s') \<le> 1" using markers_okD(6) [OF mk] view by simp
  next
    fix m assume "shown s' m"
    then show "close_queue s' = [] \<and> (\<forall>m'. shown s' m' \<longrightarrow> m' = m)"
      using markers_okD(7) [OF mk, of m] view by simp
  next
    assume "\<not> isOpen s'"
    then show "close_queue s' = [] \<and> (\<forall>m. \<not> shown s' m)" using view by simp
  next
    fix u assume "u \<in> set ts'" "in_closing u"
    then show "isOpen s' \<and> close_queue s' = [] \<and> (\<forall>m. \<not> shown s' m)"
      using ts' nc rest by auto
  next
    fix u e m assume u: "u \<in> set ts'" and em: "(e, m) \<in> set (handler_phase u)"
    then have "u \<in> set ts" using ts' rest by auto
    then have old: "e < length (nodes s) \<and> lifecycle_markers (nodes s ! e) = [m]"
      using em by (rule markers_okD(10) [OF mk])
    have "m = ''closing'' \<or> m = ''closed''" using handler_phase_marker [OF em] by blast
    then have "dialog s \<noteq> Some e" using old op [of e] by auto
    then show "e < length (nodes s') \<and> lifecycle_markers (nodes s' ! e) = [m]"
      using old view by simp
  next
    fix e assume "dialog s' = Some e"
    then show "lifecycle_markers (nodes s' ! e) = [''opened'']" using view by simp
  next
    fix m assume "shown s' m"
    then have "shown s m" using view by simp
    then show "lifecycle_markers (nodes s' ! m) = [''opening''] \<or>
               lifecycle_markers (nodes s' ! m) = [''opened'']"
      using markers_okD(12) [OF mk, of m] view by (cases "dialog s = Some m") auto
  qed
  show ?thesis using r core tasks by (cases st) auto
qed

lemma closed_mk:
  assumes mk: "markers_ok (s, ts)" and k: "k < length ts"
    and tk: "ts ! k = Close_animations i d"
  shows "markers_ok (spawn (close_closed_phase i d s) (take k ts @ drop (Suc k) ts))"
proof -
  let ?rest = "take k ts @ drop (Suc k) ts"
  have in_pool: "ts ! k \<in> set ts" using k by simp
  have ic: "in_closing (ts ! k)" by (simp add: tk)
  have io: "isOpen s" and qu: "close_queue s = []" and ns: "\<And>m. \<not> shown s m"
    using markers_okD(9) [OF mk in_pool ic] by simp_all
  have "(d, ''closing'') \<in> set (handler_phase (ts ! k))" by (simp add: tk)
  then have d: "d < length (nodes s)" and cd: "lifecycle_markers (nodes s ! d) = [''closing'']"
    using markers_okD(10) [OF mk in_pool] by blast+
  have nb: "\<And>t. t \<in> set ts \<Longrightarrow> \<not> before_opened t" using markers_okD(5) [OF mk] io by blast
  have rc: "\<And>t. t \<in> set ?rest \<Longrightarrow> \<not> in_closing t"
    using no_more [OF k ic markers_okD(4) [OF mk]] by blast
  have rest: "\<And>t. t \<in> set ?rest \<Longrightarrow> t \<in> set ts" using rest_subset [of k ts] by blast
  have fb: "filter before_opened ?rest = []" using nb rest by (auto simp: filter_empty_conv)
  have fc: "filter in_closing ?rest = []" using rc by (auto simp: filter_empty_conv)
  obtain s' st where r: "close_closed_phase i d s = (s', st)"
    by (cases "close_closed_phase i d s")
  have tasks: "\<exists>r. x = Close_closed_hook i d r" if "st = Await x" for x
    using snd_close_closed_phase [of i d s x] r that by simp
  have "s' = fst (close_closed_phase i d s)" using r by simp
  then have s': "s' = dispatchEvent (DialogStateEvent Closed i d)
       (resolve (resolveClosed s) d
          (update_node d (\<lambda>x. setAttribute ''closed'' '''' (removeAttribute ''closing'' x))
             (s\<lparr>isOpen := False\<rparr>)))"
    by (simp add: fst_close_closed_phase)
  have t: "\<not> isOpen s'" "dialog s' = dialog s" "close_queue s' = []"
    "length (nodes s') = length (nodes s)"
    using qu by (simp_all add: s')
  have nd: "\<And>m. m \<noteq> d \<Longrightarrow> nodes s' ! m = nodes s ! m" by (simp add: s' nth_update_any)
  have md: "lifecycle_markers (nodes s' ! d) = [''closed'']"
    using d cd by (simp add: s' markers_advance)
  have sh: "\<And>m. \<not> shown s' m"
    using ns by (auto simp: shown_def s' nth_update_any split: if_splits)
  have core: "markers_ok (s', ts')"
    if ts': "ts' = ?rest \<or> (\<exists>r. ts' = ?rest @ [Close_closed_hook i d r])" for ts'
  proof (rule markers_okI)
    fix m assume "m < length (nodes s')"
    then show "length (lifecycle_markers (nodes s' ! m)) = 1"
      using markers_okD(1) [OF mk, of m] md nd [of m] by (cases "m = d") (simp_all add: t)
  next
    fix e assume "dialog s' = Some e"
    then show "e < length (nodes s')" using markers_okD(2) [OF mk, of e] by (simp add: t)
  next
    show "length (filter before_opened ts') \<le> 1" using ts' fb by auto
  next
    show "length (filter in_closing ts') \<le> 1" using ts' fc by auto
  next
    fix u assume "u \<in> set ts'" "before_opened u"
    then show "\<not> isOpen s' \<and>
        (\<forall>e. dialog s' = Some e \<longrightarrow> lifecycle_markers (nodes s' ! e) = [''opening''])"
      using ts' nb rest by auto
  next
    show "length (close_queue s') \<le> 1" by (simp add: t)
  next
    fix m assume "shown s' m"
    then show "close_queue s' = [] \<and> (\<forall>m'. shown s' m' \<longrightarrow> m' = m)" using sh by blast
  next
    show "close_queue s' = [] \<and> (\<forall>m. \<not> shown s' m)" using sh by (simp add: t)
  next
    fix u assume "u \<in> set ts'" "in_closing u"
    then show "isOpen s' \<and> close_queue s' = [] \<and> (\<forall>m. \<not> shown s' m)"
      using ts' rc by auto
  next
    fix u e m assume u: "u \<in> set ts'" and em: "(e, m) \<in> set (handler_phase u)"
    show "e < length (nodes s') \<and> lifecycle_markers (nodes s' ! e) = [m]"
    proof (cases "u \<in> set ?rest")
      case True
      then have old: "e < length (nodes s) \<and> lifecycle_markers (nodes s ! e) = [m]"
        using em rest markers_okD(10) [OF mk, of u e m] by blast
      have "m = ''closed''" using handler_phase_marker [OF em] rc [OF True] by blast
      then have "e \<noteq> d" using old cd by auto
      then show ?thesis using old nd by (simp add: t)
    next
      case False
      then have "e = d \<and> m = ''closed''" using u em ts' by auto
      then show ?thesis using d md by (simp add: t)
    qed
  next
    fix e assume "isOpen s'"
    then show "lifecycle_markers (nodes s' ! e) = [''opened'']" by (simp add: t)
  next
    fix m assume "shown s' m"
    then show "lifecycle_markers (nodes s' ! m) = [''opening''] \<or>
               lifecycle_markers (nodes s' ! m) = [''opened'']"
      using sh by blast
  qed
  show ?thesis using r core tasks by (cases st) auto
qed

lemma resume_mk:
  assumes mk: "markers_ok (s, ts)" and k: "k < length ts"
  shows "markers_ok (spawn (resume (ts ! k) s) (take k ts @ drop (Suc k) ts))"
proof (cases "ts ! k")
  case (Open_opening_hook i p r)
  show ?thesis
  proof (cases r)
    case Fulfils
    show ?thesis
      by (rule resume_keep [OF mk k, of s "Await (Open_paint i p)"])
        (simp_all add: Open_opening_hook Fulfils)
  next
    case (Rejects e)
    show ?thesis
      by (rule resume_keep [OF mk k, of s "Throw e"])
        (simp_all add: Open_opening_hook Rejects)
  qed
next
  case (Open_paint i p)
  show ?thesis
  proof (cases "dialog s")
    case None
    show ?thesis
      by (rule resume_keep [OF mk k, of s "Throw (TypeError ''this.__dialog is undefined'')"])
        (simp_all add: Open_paint None)
  next
    case (Some n)
    consider (shown) "hasAttribute ''open'' (nodes s ! n)"
      | (detached) "\<not> hasAttribute ''open'' (nodes s ! n)" "\<not> attached (nodes s ! n)"
      | (fresh) "\<not> hasAttribute ''open'' (nodes s ! n)" "attached (nodes s ! n)"
      by blast
    then show ?thesis
    proof cases
      case shown
      show ?thesis
        by (rule resume_keep [OF mk k, of s "Await (Open_animations i p)"])
          (simp_all add: Open_paint Some shown showModal_def)
    next
      case detached
      show ?thesis
        by (rule resume_keep [OF mk k, of s "Throw (InvalidStateError ''not connected'')"])
          (simp_all add: Open_paint Some detached showModal_def)
    next
      case fresh
      from show_mk [OF mk k Open_paint Some]
      show ?thesis by (simp add: Open_paint Some fresh showModal_def)
    qed
  qed
next
  case (Open_animations i p)
  then show ?thesis using opened_mk [OF mk k] by simp
next
  case (Open_opened_hook i p r)
  show ?thesis
  proof (cases r)
    case Fulfils
    show ?thesis
      by (rule resume_keep [OF mk k, of "new_closed s" Return])
        (simp_all add: Open_opened_hook Fulfils shown_def)
  next
    case (Rejects e)
    show ?thesis
      by (rule resume_keep [OF mk k, of s "Throw e"])
        (simp_all add: Open_opened_hook Rejects)
  qed
next
  case (Close_closing_hook i d r)
  show ?thesis
  proof (cases r)
    case Fulfils
    show ?thesis
      by (rule resume_keep [OF mk k, of s "Await (Close_animations i d)"])
        (simp_all add: Close_closing_hook Fulfils)
  next
    case (Rejects e)
    show ?thesis
      by (rule resume_keep [OF mk k, of s "Throw e"])
        (simp_all add: Close_closing_hook Rejects)
  qed
next
  case (Close_animations i d)
  then show ?thesis using closed_mk [OF mk k] by simp
next
  case (Close_closed_hook i d r)
  show ?thesis
  proof (cases r)
    case Fulfils
    show ?thesis
      by (rule resume_keep [OF mk k, of "close_teardown d s" Return])
        (simp_all add: Close_closed_hook Fulfils close_teardown_eq nth_update_any shown_def)
  next
    case (Rejects e)
    show ?thesis
      by (rule resume_keep [OF mk k, of s "Throw e"])
        (simp_all add: Close_closed_hook Rejects)
  qed
qed

lemma step_mk:
  assumes mk: "markers_ok x" and al: "orderly a x"
  shows "markers_ok (step a x)"
proof -
  obtain s ts where x: "x = (s, ts)" by (cases x)
  note mk = mk [unfolded x]
  show ?thesis
  proof (cases a)
    case (Call_open i p)
    show ?thesis
    proof (cases "in_config s i")
      case False
      then show ?thesis using mk x Call_open by (simp add: open_unknown_fails)
    next
      case reg: True
      show ?thesis
      proof (cases "isOpen s")
        case True
        have "markers_ok (s\<lparr>priv_id := i\<rparr>, ts)"
          by (rule state_keep [OF mk]) (simp_all add: shown_def)
        then show ?thesis using x Call_open reg True by (simp add: open_dialog_open)
      next
        case False
        have "\<forall>t \<in> set ts. \<not> before_opened t" using al x Call_open by simp
        then show ?thesis
          using open_fresh_mk [OF mk reg False] x Call_open by simp
      qed
    qed
  next
    case (Call_close k)
    then show ?thesis using close_mk [OF mk] x by simp
  next
    case (Mousedown t)
    then show ?thesis using close_mk [OF mk] mk x by (simp add: onLightDismiss_def)
  next
    case (Native_close n rv)
    then show ?thesis using native_close_mk [OF mk] mk x by simp
  next
    case Fire_close
    show ?thesis
    proof (cases "close_queue s")
      case Nil
      then show ?thesis using mk x Fire_close by simp
    next
      case (Cons n q)
      then have "isOpen s" using al x Fire_close by simp
      then show ?thesis using fire_mk [OF mk _ Cons] x Fire_close Cons by simp
    qed
  next
    case (Resume k)
    then show ?thesis using resume_mk [OF mk] mk x by simp
  qed
qed

lemma exec_mk: "markers_ok x \<Longrightarrow> orderly_run as x \<Longrightarrow> markers_ok (exec as x)"
  by (induction as arbitrary: x) (simp_all add: step_mk)

lemma init_mk: "markers_ok (init cfg, [])"
  by (simp add: markers_ok_def init_def shown_def)

text \<open>
  Claim C7, as stated, fails in three ways.  In a pass that nothing disturbs, the
  native \<open>open\<close> attribute is on the surface together with \<open>opening\<close> from \<open>showModal()\<close>
  on, and together with \<open>opened\<close> once \<open>open\<close> has returned.  When \<open>close\<close> is called
  during the entry animations and the close notification is delivered before the opened
  phase, the surface carries \<open>opening\<close> and \<open>closing\<close>, and after the opened phase
  \<open>opened\<close> and \<open>closing\<close>.  When \<open>open\<close> is called twice in a row, the second call runs
  its opened phase on a surface that the handler has marked \<open>closing\<close>, although the
  notification was delivered while \<open>isOpen\<close> was true.
\<close>

theorem markers_counterexample:
  "lifecycle_markers (nodes shown_state ! 0) = [''opening''] \<and>
   hasAttribute ''open'' (nodes shown_state ! 0) \<and>
   lifecycle_markers (nodes opened_state ! 0) = [''opened''] \<and>
   hasAttribute ''open'' (nodes opened_state ! 0) \<and>
   lifecycle_markers (nodes (fst (exec early_close_schedule (init example_config, []))) ! 0) =
     [''opening'', ''closing''] \<and>
   lifecycle_markers
     (nodes (fst (exec (early_close_schedule @ [Resume 0]) (init example_config, []))) ! 0) =
     [''opened'', ''closing''] \<and>
   isOpen (fst (exec (take 6 overlap_schedule) (init example_config, []))) \<and>
   lifecycle_markers (nodes (fst (exec overlap_schedule (init example_config, []))) ! 1) =
     [''opened'', ''closing'']"
  by (simp add: shown_state_def open_pass_def early_close_schedule_def overlap_schedule_def
      lifecycle_markers_def segment_defs example_defs)

text \<open>
  Claim C7, amended.  Take any sequence of calls of \<open>open\<close> and \<open>close\<close>, dismissals,
  deliveries of the close notification and resumptions, with hooks that succeed or fail,
  in which \<open>open\<close> is never called while another call of \<open>open\<close> is before its opened
  phase and no close notification is delivered while \<open>isOpen\<close> is false.  In the state
  it reaches, every surface the controller has created carries exactly one of the markers
  \<open>opening\<close>, \<open>opened\<close>, \<open>closing\<close>, \<open>closed\<close>.  While a call of \<open>open\<close> is before its
  opened phase, \<open>isOpen\<close> is false and the held surface carries \<open>opening\<close>.  While
  \<open>isOpen\<close> is true and the held surface is shown or a close notification is queued, the
  held surface carries \<open>opened\<close>.  The surface of a handler of the close notification
  carries \<open>closing\<close> before the handler's closed phase and \<open>closed\<close> from then on.  The
  native \<open>open\<close> attribute is not exclusive with these markers: a surface that has it
  carries \<open>opening\<close> or \<open>opened\<close>.
\<close>

theorem markers_reflect_phase:
  assumes "orderly_run as (init cfg, [])" and "exec as (init cfg, []) = (s, ts)"
  shows "(\<forall>n < length (nodes s). length (lifecycle_markers (nodes s ! n)) = 1) \<and>
         (\<forall>t \<in> set ts. before_opened t \<longrightarrow>
             \<not> isOpen s \<and>
             (\<forall>d. dialog s = Some d \<longrightarrow> lifecycle_markers (nodes s ! d) = [''opening''])) \<and>
         (\<forall>d. isOpen s \<and> dialog s = Some d \<and> (shown s d \<or> close_queue s \<noteq> []) \<longrightarrow>
             lifecycle_markers (nodes s ! d) = [''opened'']) \<and>
         (\<forall>t \<in> set ts. \<forall>(d, m) \<in> set (handler_phase t).
             d < length (nodes s) \<and> lifecycle_markers (nodes s ! d) = [m]) \<and>
         (\<forall>n. shown s n \<longrightarrow>
             lifecycle_markers (nodes s ! n) = [''opening''] \<or>
             lifecycle_markers (nodes s ! n) = [''opened''])"
proof -
  have "markers_ok (exec as (init cfg, []))"
    using init_mk assms(1) by (rule exec_mk)
  then have mk: "markers_ok (s, ts)" by (simp add: assms(2))
  show ?thesis
  proof (intro conjI allI ballI impI)
    fix n assume "n < length (nodes s)"
    then show "length (lifecycle_markers (nodes s ! n)) = 1" by (rule markers_okD(1) [OF mk])
  next
    fix t assume "t \<in> set ts" "before_opened t"
    then show "\<not> isOpen s" using markers_okD(5) [OF mk] by blast
  next
    fix t d assume "t \<in> set ts" "before_opened t" "dialog s = Some d"
    then show "lifecycle_markers (nodes s ! d) = [''opening'']"
      using markers_okD(5) [OF mk] by blast
  next
    fix d assume "isOpen s \<and> dialog s = Some d \<and> (shown s d \<or> close_queue s \<noteq> [])"
    then show "lifecycle_markers (nodes s ! d) = [''opened'']"
      using markers_okD(11) [OF mk, of d] by blast
  next
    fix t x assume "t \<in> set ts" "x \<in> set (handler_phase t)"
    then show "case x of (d, m) \<Rightarrow>
                 d < length (nodes s) \<and> lifecycle_markers (nodes s ! d) = [m]"
      using markers_okD(10) [OF mk, of t "fst x" "snd x"] by (cases x) simp
  next
    fix n assume "shown s n"
    then show "lifecycle_markers (nodes s ! n) = [''opening''] \<or>
               lifecycle_markers (nodes s ! n) = [''opened'']"
      by (rule markers_okD(12) [OF mk])
  qed
qed

theorem markers_reflect_phase_witness:
  "orderly_run round_trip_schedule (init example_config, []) \<and>
   snd (exec round_trip_schedule (init example_config, [])) =
     [Close_closed_hook ''foo'' 0 Fulfils, Open_animations ''bar'' None] \<and>
   dialog (fst (exec round_trip_schedule (init example_config, []))) = Some 1 \<and>
   shown (fst (exec round_trip_schedule (init example_config, []))) 1 \<and>
   lifecycle_markers (nodes (fst (exec round_trip_schedule (init example_config, []))) ! 0) =
     [''closed''] \<and>
   lifecycle_markers (nodes (fst (exec round_trip_schedule (init example_config, []))) ! 1) =
     [''opening'']"
proof -
  let ?x = "exec round_trip_schedule (init example_config, [])"
  have run: "orderly_run round_trip_schedule (init example_config, [])"
    by (simp add: round_trip_schedule_def segment_defs init_def example_config_def no_hooks_def)
  have ts: "snd ?x = [Close_closed_hook ''foo'' 0 Fulfils, Open_animations ''bar'' None]"
    by (simp add: round_trip_schedule_def segment_defs init_def example_config_def no_hooks_def)
  have held: "dialog (fst ?x) = Some 1"
    by (simp add: round_trip_schedule_def segment_defs init_def example_config_def no_hooks_def)
  have sh: "shown (fst ?x) 1"
    by (simp add: shown_def round_trip_schedule_def segment_defs init_def example_config_def
        no_hooks_def)
  note m = markers_reflect_phase [OF run surjective_pairing]
  have "lifecycle_markers (nodes (fst ?x) ! 0) = [''closed'']"
    using m ts by simp
  moreover have "lifecycle_markers (nodes (fst ?x) ! 1) = [''opening'']"
    using m ts held by simp
  ultimately show ?thesis using run ts held sh by simp
qed

end
